theory Spec2Isabelle
  imports Complex_Main
begin

section \<open>Exceptions of the Python run time\<close>

text \<open>
  Every raise of the source, and every raise of a library call the source makes on the
  paths modelled here, is a value of this type; a function that can raise returns
  \<open>py_error + 'a\<close> with the exception on the left.
\<close>

datatype py_error =
    AssertionError
  | ValueError
  | TypeError
  | ZeroDivisionError
  | UnboundLocalError
  | OverflowError
  | ConnectionError
  | FileExistsError
  | ExportError

section \<open>The generator object\<close>

text \<open>
  The fields \<open>FractalImageGenerator.__init__\<close> and \<open>_initialize_params\<close> assign.
  A weight vector is a row of the matrix \<open>self._weights\<close>; the element type of the rows is
  left open.
\<close>

record 'w generator =
  count :: int
  output_dir :: string
  model_dir :: string
  cpu_count :: int
  height :: int
  width :: int
  weights :: "'w list"
  threshold :: real
  iterations :: int
  num_of_points :: int
  instances :: int
  categories :: int

section \<open>Array primitives of numpy used by the generator\<close>

text \<open>
  \<open>np.repeat(a, n, axis=0)\<close> puts \<open>n\<close> copies of every row where the row was,
  \<open>np.tile(a, (n, 1))\<close> lays \<open>n\<close> copies of the whole array one after the other; a
  negative \<open>n\<close> raises \<open>ValueError\<close> in both.
\<close>

definition np_repeat :: "'a list \<Rightarrow> int \<Rightarrow> py_error + 'a list" where
  "np_repeat a n = (if n < 0 then Inl ValueError else Inr (concat (map (replicate (nat n)) a)))"

definition np_tile :: "'a list \<Rightarrow> int \<Rightarrow> py_error + 'a list" where
  "np_tile a n = (if n < 0 then Inl ValueError else Inr (concat (replicate (nat n) a)))"

text \<open>The slice \<open>a[:n]\<close>; a negative \<open>n\<close> counts from the end.\<close>

definition slice_to :: "'a list \<Rightarrow> int \<Rightarrow> 'a list" where
  "slice_to a n = (if 0 \<le> n then take (nat n) a else take (length a - nat (- n)) a)"

text \<open>
  \<open>np.array_split(ary, k)\<close>: with \<open>each, extras = divmod(len(ary), k)\<close> the first
  \<open>extras\<close> sections have \<open>each + 1\<close> rows and the other \<open>k - extras\<close> have \<open>each\<close>;
  the sections are cut off the array from the left in that order. \<open>k \<le> 0\<close> raises
  \<open>ValueError\<close>.
\<close>

fun cut_sections :: "nat list \<Rightarrow> 'a list \<Rightarrow> 'a list list" where
  "cut_sections [] ary = []"
| "cut_sections (n # ns) ary = take n ary # cut_sections ns (drop n ary)"

definition section_sizes :: "nat \<Rightarrow> nat \<Rightarrow> nat list" where
  "section_sizes n k =
     replicate (n mod k) (n div k + 1) @ replicate (k - n mod k) (n div k)"

definition array_split :: "'a list \<Rightarrow> int \<Rightarrow> py_error + 'a list list" where
  "array_split ary k =
     (if k \<le> 0 then Inl ValueError
      else Inr (cut_sections (section_sizes (length ary) (nat k)) ary))"

section \<open>Work partitioning in \<open>generate_dataset\<close>\<close>

text \<open>
  The loop over \<open>enumerate(zip(params_per_proc, weights_per_proc))\<close>: each batch gets the
  index range that starts at the running \<open>offset\<close> and has the length of its parameter
  section.
\<close>

fun assign_indices ::
  "nat \<Rightarrow> ('p list \<times> 'w list) list \<Rightarrow> ('p list \<times> 'w list \<times> nat list) list" where
  "assign_indices offset [] = []"
| "assign_indices offset ((param, w) # rest) =
     (param, w, [offset..<offset + length param])
       # assign_indices (offset + length param) rest"

text \<open>
  Lines 79 to 96 of \<open>generate_dataset\<close>, from the sampled category parameters to
  \<open>generation_params\<close>. The \<open>assert\<close> of line 85 is the \<open>AssertionError\<close> branch.
\<close>

definition partition_jobs ::
  "'w generator \<Rightarrow> 'p list \<Rightarrow> py_error + ('p list \<times> 'w list \<times> nat list) list" where
  "partition_jobs self params =
     (case np_repeat (weights self) (instances self) of
        Inl e \<Rightarrow> Inl e
      | Inr instances_weights \<Rightarrow>
     (case np_tile instances_weights (categories self) of
        Inl e \<Rightarrow> Inl e
      | Inr weight_per_img0 \<Rightarrow>
     (case np_repeat params (int (length (weights self)) * instances self) of
        Inl e \<Rightarrow> Inl e
      | Inr repeated_params0 \<Rightarrow>
     (let repeated_params = slice_to repeated_params0 (count self);
          weight_per_img = slice_to weight_per_img0 (count self)
      in if \<not> (int (length weight_per_img) = int (length repeated_params)
               \<and> int (length repeated_params) = count self)
         then Inl AssertionError
         else
           (let splits = min (cpu_count self) (count self)
            in case array_split repeated_params splits of
                 Inl e \<Rightarrow> Inl e
               | Inr params_per_proc \<Rightarrow>
              (case array_split weight_per_img splits of
                 Inl e \<Rightarrow> Inl e
               | Inr weights_per_proc \<Rightarrow>
                   Inr (assign_indices 0 (zip params_per_proc weights_per_proc))))))))"

text \<open>
  The jobs of one batch, as \<open>_generate_image_batch\<close> reads them:
  \<open>zip(indices, params, weights)\<close>.
\<close>

fun batch_jobs :: "'p list \<times> 'w list \<times> nat list \<Rightarrow> (nat \<times> 'p \<times> 'w) list" where
  "batch_jobs (params, ws, indices) = zip indices (zip params ws)"

definition all_jobs :: "('p list \<times> 'w list \<times> nat list) list \<Rightarrow> (nat \<times> 'p \<times> 'w) list" where
  "all_jobs batches = concat (map batch_jobs batches)"

text \<open>The two per-job arrays before the split, as lines 79 to 84 build and truncate them.\<close>

definition truncated_params :: "'w generator \<Rightarrow> 'p list \<Rightarrow> 'p list" where
  "truncated_params self params =
     take (nat (count self))
       (concat (map (replicate (length (weights self) * nat (instances self))) params))"

definition truncated_weights :: "'w generator \<Rightarrow> 'w list" where
  "truncated_weights self =
     take (nat (count self))
       (concat (replicate (nat (categories self))
          (concat (map (replicate (nat (instances self))) (weights self)))))"

section \<open>A small generator for the examples\<close>

text \<open>
  Five images from three weight vectors on two workers: the planner's layout is two
  instances of one category.
\<close>

definition demo_generator :: "real list generator" where
  "demo_generator = \<lparr> count = 5, output_dir = ''out'', model_dir = ''model'', cpu_count = 2,
     height = 4, width = 4, weights = [[10], [11], [12]], threshold = 1 / 5, iterations = 200000,
     num_of_points = 100000, instances = 2, categories = 1 \<rparr>"

section \<open>Floating-point arithmetic\<close>

text \<open>
  The planner and the sampler compute with IEEE 754 double precision: Python's \<open>*\<close>,
  \<open>-\<close>, \<open>+\<close> and \<open>int / int\<close> and numpy's \<open>sqrt\<close> and \<open>/\<close> return the double
  nearest to the exact result, ties going to the even significand. \<open>binary64\<close> is that
  rounding for the normal range: every value the planner meets is at least 1, and the
  products and sums of the sampler are zero or far above the least normal double, its draws
  being multiples of \<open>2^-52\<close> between \<open>-1\<close> and 1. A double is read as the real number
  it denotes.
\<close>

definition round_half_even :: "real \<Rightarrow> int" where
  "round_half_even y =
     (let f = \<lfloor>y\<rfloor>; d = y - of_int f
      in if d < 1 / 2 then f else if 1 / 2 < d then f + 1 else if even f then f else f + 1)"

definition binary64 :: "real \<Rightarrow> real" where
  "binary64 x =
     (if x = 0 then 0
      else let e = \<lfloor>log 2 \<bar>x\<bar>\<rfloor>; u = 2 powr (of_int e - 52)
           in of_int (round_half_even (x / u)) * u)"

text \<open>
  The rounding to single precision, which numpy applies when a value is stored in an array
  of \<open>dtype=np.float32\<close> and when two such values are divided: 24 bits of significand,
  with the fixed spacing \<open>2^-149\<close> below the least normal number \<open>2^-126\<close>. No value
  stored here comes near the largest single.
\<close>

definition binary32 :: "real \<Rightarrow> real" where
  "binary32 x =
     (if x = 0 then 0
      else let e = max \<lfloor>log 2 \<bar>x\<bar>\<rfloor> (- 126); u = 2 powr (of_int e - 23)
           in of_int (round_half_even (x / u)) * u)"

text \<open>
  Python's true division of two integers: \<open>ZeroDivisionError\<close> for a zero divisor,
  \<open>OverflowError\<close> when the quotient is too large for a double.
\<close>

definition true_divide :: "int \<Rightarrow> int \<Rightarrow> py_error + real" where
  "true_divide a b =
     (if b = 0 then Inl ZeroDivisionError
      else let q = binary64 (of_int a / of_int b)
           in if 2 ^ 1024 \<le> \<bar>q\<bar> then Inl OverflowError else Inr q)"

definition np_ceil :: "real \<Rightarrow> real" where
  "np_ceil x = of_int \<lceil>x\<rceil>"

definition np_sqrt :: "real \<Rightarrow> real" where
  "np_sqrt x = binary64 (sqrt x)"

text \<open>
  \<open>float64 / int64\<close>: the integer is converted to a double, then the quotient is rounded.
\<close>

definition np_divide :: "real \<Rightarrow> int \<Rightarrow> real" where
  "np_divide x n = binary64 (x / binary64 (of_int n))"

text \<open>
  \<open>.astype(int)\<close> truncates a double towards zero; outside the range of \<open>int64\<close> the
  conversion gives the least \<open>int64\<close>.
\<close>

definition astype_int :: "real \<Rightarrow> int" where
  "astype_int x =
     (if - (2 ^ 63) \<le> x \<and> x < 2 ^ 63 then (if 0 \<le> x then \<lfloor>x\<rfloor> else \<lceil>x\<rceil>)
      else - (2 ^ 63))"

section \<open>Weight vectors and the category plan\<close>

text \<open>
  \<open>_create_weights\<close>: the base vector of ones, then for every position the four vectors
  that move that position by \<open>-2, -1, 1, 2\<close> times the interval \<open>0.4\<close>.
\<close>

definition create_weights :: "nat \<Rightarrow> real list list" where
  "create_weights num_params =
     (let BASE_WEIGHTS = replicate num_params (1 :: real);
          WEIGHT_INTERVAL = 4 / 10;
          INTERVAL_MULTIPLIERS = [- 2, - 1, 1, 2]
      in BASE_WEIGHTS #
         concat (map (\<lambda>weight_index.
                   map (\<lambda>multiplier.
                         BASE_WEIGHTS[weight_index :=
                           BASE_WEIGHTS ! weight_index + multiplier * WEIGHT_INTERVAL])
                     INTERVAL_MULTIPLIERS)
                 [0..<num_params]))"

text \<open>
  \<open>_initialize_params\<close>. It is called by \<open>__init__\<close> only, after \<open>0 < count\<close> has been
  asserted, so the quotient is at least 1. A zero divisor in the last division makes numpy
  return infinity, which \<open>astype(int)\<close> turns into the least \<open>int64\<close>.
\<close>

definition initialize_params :: "real list generator \<Rightarrow> py_error + real list generator" where
  "initialize_params self =
     (let weights1 = (if count self < int (length (weights self))
                      then slice_to (weights self) (count self) else weights self)
      in case true_divide (count self) (int (length weights1)) of
           Inl e \<Rightarrow> Inl e
         | Inr q \<Rightarrow>
             (let instances_categories = np_ceil q;
                  instances1 = astype_int (np_ceil (np_sqrt instances_categories));
                  categories1 =
                    (if instances1 = 0 then - (2 ^ 63)
                     else astype_int (np_ceil (np_divide instances_categories instances1)))
              in Inr (self\<lparr>weights := weights1, instances := instances1,
                            categories := categories1\<rparr>)))"

section \<open>Construction of the generator\<close>

text \<open>
  What \<open>__init__\<close> reads from and writes to outside the object: the working directory,
  the number of processors (\<open>os.cpu_count()\<close> may be \<open>None\<close>), the paths that exist, the
  directories the process may write to, and whether the model files can be fetched.
\<close>

record env =
  cwd :: string
  os_cpu_count :: "int option"
  existing :: "string set"
  writable :: "string set"
  net_up :: bool

definition MODEL_PROTO_NAME :: string where
  "MODEL_PROTO_NAME = ''colorization_deploy_v2.prototxt''"

definition MODEL_CONFIG_NAME :: string where
  "MODEL_CONFIG_NAME = ''colorization_release_v2.caffemodel''"

definition HULL_PTS_FILE_NAME :: string where
  "HULL_PTS_FILE_NAME = ''pts_in_hull.npy''"

text \<open>\<open>os.path.join\<close> of a directory and a relative file name.\<close>

definition osp_join :: "string \<Rightarrow> string \<Rightarrow> string" where
  "osp_join a b = (if a = [] then b else if last a = CHR ''/'' then a @ b else a @ ''/'' @ b)"

text \<open>
  One of the three \<open>if not osp.exists(p): requests.get(...); open(p, "wb").write(...)\<close>
  blocks: a file that is missing is fetched and then exists; without a connection
  \<open>requests.get\<close> raises.
\<close>

definition fetch_missing :: "string \<Rightarrow> env \<Rightarrow> (py_error + unit) \<times> env" where
  "fetch_missing file_path e =
     (if file_path \<in> existing e then (Inr (), e)
      else if \<not> net_up e then (Inl ConnectionError, e)
      else (Inr (), e\<lparr>existing := insert file_path (existing e)\<rparr>))"

definition download_colorization_model :: "string \<Rightarrow> env \<Rightarrow> (py_error + unit) \<times> env" where
  "download_colorization_model path e =
     (let proto_path = osp_join path MODEL_PROTO_NAME;
          config_path = osp_join path MODEL_CONFIG_NAME;
          hull_path = osp_join path HULL_PTS_FILE_NAME
      in if \<not> (proto_path \<in> existing e \<and> config_path \<in> existing e \<and> hull_path \<in> existing e)
            \<and> path \<notin> writable e
         then (Inl ValueError, e)
         else (case fetch_missing proto_path e of
                 (Inl err, e1) \<Rightarrow> (Inl err, e1)
               | (Inr _, e1) \<Rightarrow>
             (case fetch_missing config_path e1 of
                 (Inl err, e2) \<Rightarrow> (Inl err, e2)
               | (Inr _, e2) \<Rightarrow> fetch_missing hull_path e2)))"

text \<open>
  \<open>FractalImageGenerator.__init__\<close>. \<open>num_params\<close> stands for the constant
  \<open>IFSFunction.NUM_PARAMS\<close>. The result is the exception or the constructed object,
  together with the environment the call leaves behind. The fields \<open>instances\<close> and
  \<open>categories\<close> do not exist until \<open>_initialize_params\<close> assigns them; they are 0 in the
  record that is handed to it.
\<close>

definition init ::
  "nat \<Rightarrow> string \<Rightarrow> int \<Rightarrow> int list \<Rightarrow> string option \<Rightarrow> env
     \<Rightarrow> (py_error + real list generator) \<times> env" where
  "init num_params output_dir1 count1 shape model_path e =
     (if \<not> 0 < count1 then (Inl AssertionError, e)
      else
        (let model_dir1 = (case model_path of
                             None \<Rightarrow> cwd e
                           | Some p \<Rightarrow> if p = [] then cwd e else p)
         in case os_cpu_count e of
              None \<Rightarrow> (Inl TypeError, e)
            | Some cpus \<Rightarrow>
                (let cpu_count1 = min cpus count1
                 in if \<not> length shape = 2 then (Inl AssertionError, e)
                    else
                      (let self = \<lparr> count = count1, output_dir = output_dir1,
                                      model_dir = model_dir1, cpu_count = cpu_count1,
                                      height = shape ! 0, width = shape ! 1,
                                      weights = create_weights num_params,
                                      threshold = 2 / 10, iterations = 200000,
                                      num_of_points = 100000, instances = 0, categories = 0 \<rparr>
                       in case download_colorization_model model_dir1 e of
                            (Inl err, e1) \<Rightarrow> (Inl err, e1)
                          | (Inr _, e1) \<Rightarrow>
                              (case initialize_params self of
                                 Inl err \<Rightarrow> (Inl err, e1)
                               | Inr self1 \<Rightarrow> (Inr self1, e1))))))"

section \<open>An environment for the examples\<close>

text \<open>
  Eight processors, the three model files present in the working directory, no write
  access and no connection.
\<close>

definition demo_env :: env where
  "demo_env = \<lparr> cwd = ''/work'', os_cpu_count = Some 8,
      existing = {''/work/colorization_deploy_v2.prototxt'',
                  ''/work/colorization_release_v2.caffemodel'',
                  ''/work/pts_in_hull.npy''},
      writable = {}, net_up = False \<rparr>"

section \<open>Image synthesis\<close>

text \<open>
  The class \<open>IFSFunction\<close> and Python's \<open>random.Random\<close> are used through their methods
  only. A generator of type \<open>'r\<close> is the state of a \<open>Random\<close> object and every draw returns
  the next state; an object of type \<open>'s\<close> is an \<open>IFSFunction\<close>, which keeps the generator it
  was built with and advances it, so \<open>ifs_rng\<close> reads the generator back after the calls.
  \<open>'img\<close> is a raster.
\<close>

record ('r, 's, 'img) ifs_ops =
  Random :: "int \<Rightarrow> 'r"
  randint :: "int \<Rightarrow> int \<Rightarrow> 'r \<Rightarrow> int \<times> 'r"
  uniform :: "real \<Rightarrow> real \<Rightarrow> 'r \<Rightarrow> real \<times> 'r"
  ifs_new :: "'r \<Rightarrow> real \<Rightarrow> real \<Rightarrow> 's"
  add_param :: "'s \<Rightarrow> real list \<Rightarrow> real \<Rightarrow> real list option \<Rightarrow> 's"
  calculate :: "'s \<Rightarrow> int \<Rightarrow> 's"
  draw :: "'s \<Rightarrow> int \<Rightarrow> int \<Rightarrow> bool \<Rightarrow> 'img"
  ifs_rng :: "'s \<Rightarrow> 'r"
  count_nonzero :: "'img \<Rightarrow> nat"

text \<open>
  A row of the parameter array of a category, of shape \<open>(param_size, NUM_PARAMS + 1)\<close>: the
  coefficients \<open>param[:NUM_PARAMS]\<close> and the selection weight \<open>param[NUM_PARAMS]\<close>. An
  entry is the real number a float denotes.
\<close>

type_synonym ifs_param = "real list \<times> real"

text \<open>\<open>_generate_image\<close>; the second component is the generator as the call leaves it.\<close>

definition generate_image ::
  "('r, 's, 'img) ifs_ops \<Rightarrow> 'r \<Rightarrow> ifs_param list \<Rightarrow> int \<Rightarrow> int \<Rightarrow> int \<Rightarrow> bool
     \<Rightarrow> real list option \<Rightarrow> 'img \<times> 'r" where
  "generate_image ops rng params iterations1 height1 width1 draw_point weight =
     (let ifs_function0 = ifs_new ops rng 0 0;
          ifs_function1 = fold (\<lambda>param f. add_param ops f (fst param) (snd param) weight)
                            params ifs_function0;
          ifs_function2 = calculate ops ifs_function1 iterations1;
          img = draw ops ifs_function2 height1 width1 draw_point
      in (img, ifs_rng ops ifs_function2))"

section \<open>Sampling a category\<close>

text \<open>The list comprehension \<open>[rng.uniform(-1.0, 1.0) for _ in range(n)]\<close>.\<close>

fun draw_uniforms :: "('r, 's, 'img) ifs_ops \<Rightarrow> nat \<Rightarrow> 'r \<Rightarrow> real list \<times> 'r" where
  "draw_uniforms ops 0 rng = ([], rng)"
| "draw_uniforms ops (Suc n) rng =
     (case uniform ops (- 1) 1 rng of
        (x, rng1) \<Rightarrow> (case draw_uniforms ops n rng1 of (xs, rng2) \<Rightarrow> (x # xs, rng2)))"

text \<open>
  The loop \<open>for p_idx in range(param_size)\<close>, for the rows still to fill: the draws are
  unpacked into six names (\<open>ValueError\<close> when there are not six of them), the area factor
  \<open>abs(a * d - b * c)\<close> is computed and added to \<open>sum_proba\<close> in double precision, and
  the assignment \<open>params[p_idx] = a, b, c, d, e, f, prob\<close> stores the seven numbers in the
  row of the \<open>float32\<close> array.
\<close>

fun sample_rows ::
  "('r, 's, 'img) ifs_ops \<Rightarrow> nat \<Rightarrow> nat \<Rightarrow> ifs_param list \<Rightarrow> real \<Rightarrow> 'r
     \<Rightarrow> py_error + (ifs_param list \<times> real \<times> 'r)" where
  "sample_rows ops num_params 0 rows sum_proba rng = Inr (rows, sum_proba, rng)"
| "sample_rows ops num_params (Suc n) rows sum_proba rng =
     (case draw_uniforms ops num_params rng of
        (cs, rng1) \<Rightarrow>
          (case cs of
             [a, b, c, d, e, f] \<Rightarrow>
               (let prob = \<bar>binary64 (binary64 (a * d) - binary64 (b * c))\<bar>
                in sample_rows ops num_params n
                     (rows @ [(map binary32 [a, b, c, d, e, f], binary32 prob)])
                     (binary64 (sum_proba + prob)) rng1)
           | _ \<Rightarrow> Inl ValueError))"

text \<open>
  One pass through the body of the \<open>while\<close> loop of \<open>_generate_category\<close>: a candidate, the
  fraction of nonzero pixels of its rendering and the generator afterwards. \<open>np.zeros\<close>
  raises \<open>ValueError\<close> for a negative size, the division \<open>ZeroDivisionError\<close> for an empty
  canvas. \<open>sum_proba\<close> starts as the double \<open>1e-5\<close>; the statement
  \<open>params[:, NUM_PARAMS] /= sum_proba\<close> divides the column of the \<open>float32\<close> array in
  single precision, the divisor converted to a single. The fraction of nonzero pixels is
  taken as the exact quotient of the two integers.
\<close>

definition next_candidate ::
  "('r, 's, 'img) ifs_ops \<Rightarrow> 'w generator \<Rightarrow> nat \<Rightarrow> int \<Rightarrow> int \<Rightarrow> 'r
     \<Rightarrow> py_error + (ifs_param list \<times> real \<times> 'r)" where
  "next_candidate ops self num_params base_h base_w rng =
     (case randint ops 2 7 rng of
        (param_size, rng1) \<Rightarrow>
          if param_size < 0 then Inl ValueError
          else
            (case sample_rows ops num_params (nat param_size) [] (binary64 (1 / 100000))
                    rng1 of
               Inl e \<Rightarrow> Inl e
             | Inr (rows, sum_proba, rng2) \<Rightarrow>
                 (let params =
                        map (\<lambda>(cs, prob). (cs, binary32 (prob / binary32 sum_proba))) rows
                  in case generate_image ops rng2 params (num_of_points self) base_h base_w
                            True None of
                       (fractal_img, rng3) \<Rightarrow>
                         if base_h * base_w = 0 then Inl ZeroDivisionError
                         else Inr (params,
                                   real (count_nonzero ops fractal_img)
                                     / of_int (base_h * base_w),
                                   rng3))))"

text \<open>
  The \<open>while\<close> loop, from a state of its variables \<open>pixels\<close>, \<open>i\<close>, \<open>params\<close> and the
  generator to the state in which it ends. \<open>params\<close> is unbound until the body has run.
\<close>

function category_loop ::
  "('r, 's, 'img) ifs_ops \<Rightarrow> 'w generator \<Rightarrow> nat \<Rightarrow> int \<Rightarrow> int
     \<Rightarrow> real \<Rightarrow> int \<Rightarrow> ifs_param list option \<Rightarrow> 'r
     \<Rightarrow> py_error + (real \<times> int \<times> ifs_param list option \<times> 'r)" where
  "category_loop ops self num_params base_h base_w pixels i params rng =
     (if pixels < threshold self \<and> i < iterations self
      then (case next_candidate ops self num_params base_h base_w rng of
              Inl e \<Rightarrow> Inl e
            | Inr (params1, pixels1, rng1) \<Rightarrow>
                category_loop ops self num_params base_h base_w pixels1 (i + 1)
                  (Some params1) rng1)
      else Inr (pixels, i, params, rng))"
  by pat_completeness auto
termination
  by (relation "measure (\<lambda>(ops, self, num_params, base_h, base_w, pixels, i, params, rng).
                   nat (iterations self - i))") auto

declare category_loop.simps [simp del]

text \<open>
  \<open>_generate_category\<close>: the loop from \<open>pixels = -1\<close> and \<open>i = 0\<close>, then \<open>return params\<close>.
  The generator after the call is returned with the parameters.
\<close>

definition generate_category ::
  "('r, 's, 'img) ifs_ops \<Rightarrow> 'w generator \<Rightarrow> nat \<Rightarrow> 'r \<Rightarrow> int \<Rightarrow> int
     \<Rightarrow> py_error + (ifs_param list \<times> 'r)" where
  "generate_category ops self num_params rng base_h base_w =
     (case category_loop ops self num_params base_h base_w (- 1) 0 None rng of
        Inl e \<Rightarrow> Inl e
      | Inr (pixels, i, None, rng1) \<Rightarrow> Inl UnboundLocalError
      | Inr (pixels, i, Some params, rng1) \<Rightarrow> Inr (params, rng1))"

text \<open>
  The candidates in the order the loop generates them: \<open>nth_candidate \<dots> rng k\<close> is the
  result of the pass number \<open>k + 1\<close> when the loop starts with the generator \<open>rng\<close>.
\<close>

fun nth_candidate ::
  "('r, 's, 'img) ifs_ops \<Rightarrow> 'w generator \<Rightarrow> nat \<Rightarrow> int \<Rightarrow> int \<Rightarrow> 'r \<Rightarrow> nat
     \<Rightarrow> py_error + (ifs_param list \<times> real \<times> 'r)" where
  "nth_candidate ops self num_params base_h base_w rng 0 =
     next_candidate ops self num_params base_h base_w rng"
| "nth_candidate ops self num_params base_h base_w rng (Suc k) =
     (case next_candidate ops self num_params base_h base_w rng of
        Inl e \<Rightarrow> Inl e
      | Inr (params1, pixels1, rng1) \<Rightarrow>
          nth_candidate ops self num_params base_h base_w rng1 k)"

section \<open>A scripted generator and renderer for the examples\<close>

text \<open>
  A generator whose state is the number of draws made so far: \<open>randint\<close> returns its lower
  bound, \<open>uniform\<close> its upper bound during the first thirteen draws and 0 afterwards. The
  renderer spends one draw and lights 1000 pixels when some coefficient is not zero, none
  otherwise. A raster is represented by the number of its nonzero pixels.
\<close>

definition scripted_ops :: "(nat, nat \<times> ifs_param list, nat) ifs_ops" where
  "scripted_ops =
     \<lparr> Random = (\<lambda>seed. 0),
       randint = (\<lambda>lo hi r. (lo, Suc r)),
       uniform = (\<lambda>lo hi r. (if r < 13 then hi else 0, Suc r)),
       ifs_new = (\<lambda>r x y. (r, [])),
       add_param = (\<lambda>s cs p w. (fst s, snd s @ [(cs, p)])),
       calculate = (\<lambda>s n. (Suc (fst s), snd s)),
       draw = (\<lambda>s h w dp. if list_ex (\<lambda>row. list_ex (\<lambda>c. c \<noteq> 0) (fst row)) (snd s)
                             then 1000 else 0),
       ifs_rng = fst,
       count_nonzero = (\<lambda>img. img) \<rparr>"

definition unit_category :: "ifs_param list" where
  "unit_category = [([1, 1, 1, 1, 1, 1], 0), ([1, 1, 1, 1, 1, 1], 0)]"

definition zero_category :: "ifs_param list" where
  "zero_category = [([0, 0, 0, 0, 0, 0], 0), ([0, 0, 0, 0, 0, 0], 0)]"

section \<open>Synthesis and post-processing of a batch\<close>

text \<open>
  The functions \<open>colorize\<close> and \<open>augment\<close> of the package are used through their calls:
  \<open>colorize\<close> runs the network, which is an object it may change, and \<open>augment\<close> draws
  from the generator it is given. \<open>'net\<close> is the loaded network, \<open>'cimg\<close> a colour image and
  \<open>'bg\<close> the table of background colours.
\<close>

record ('r, 'img, 'net, 'cimg, 'bg) post_ops =
  colorize :: "'img \<Rightarrow> 'net \<Rightarrow> 'cimg \<times> 'net"
  augment :: "'r \<Rightarrow> 'cimg \<Rightarrow> 'bg \<Rightarrow> 'cimg"

text \<open>The file name \<open>"{:06d}.png".format(i)\<close>.\<close>

fun decimal :: "nat \<Rightarrow> string" where
  "decimal n =
     (if n < 10 then [''0123456789'' ! n]
      else decimal (n div 10) @ [''0123456789'' ! (n mod 10)])"

declare decimal.simps [simp del]

definition file_name :: "nat \<Rightarrow> string" where
  "file_name i = replicate (6 - length (decimal i)) (CHR ''0'') @ decimal i @ ''.png''"

text \<open>
  The loop \<open>for i, param, w in zip(indices, params, weights)\<close> of
  \<open>_generate_image_batch\<close>, with the network as the previous pass left it. The result lists,
  for every pass in order, the path written, the raster and the saved
  \<open>aug_image\<close>, and gives the network after the last pass.
\<close>

fun image_batch_loop ::
  "('r, 's, 'img) ifs_ops \<Rightarrow> ('r, 'img, 'net, 'cimg, 'bg) post_ops \<Rightarrow> 'w generator
     \<Rightarrow> 'bg \<Rightarrow> 'net \<Rightarrow> (nat \<times> ifs_param list \<times> real list) list
     \<Rightarrow> (string \<times> 'img \<times> 'cimg) list \<times> 'net" where
  "image_batch_loop ifs post self background_colors net [] = ([], net)"
| "image_batch_loop ifs post self background_colors net ((i, param, w) # rest) =
     (case generate_image ifs (Random ifs (int i)) param (iterations self)
             (height self) (width self) False (Some w) of
        (img, rng1) \<Rightarrow>
          (case colorize post img net of
             (color_image, net1) \<Rightarrow>
               (let aug_image = augment post (Random ifs (int i)) color_image background_colors;
                    path = osp_join (output_dir self) (file_name i)
                in case image_batch_loop ifs post self background_colors net1 rest of
                     (saved, net2) \<Rightarrow> ((path, img, aug_image) # saved, net2))))"

text \<open>
  \<open>_generate_image_batch\<close> for one entry of \<open>generation_params\<close>; \<open>net\<close> and
  \<open>background_colors\<close> are what the function loads before the loop.
\<close>

definition generate_image_batch ::
  "('r, 's, 'img) ifs_ops \<Rightarrow> ('r, 'img, 'net, 'cimg, 'bg) post_ops \<Rightarrow> 'w generator
     \<Rightarrow> 'bg \<Rightarrow> 'net \<Rightarrow> ifs_param list list \<times> real list list \<times> nat list
     \<Rightarrow> (string \<times> 'img \<times> 'cimg) list \<times> 'net" where
  "generate_image_batch ifs post self background_colors net batch =
     image_batch_loop ifs post self background_colors net (batch_jobs batch)"

text \<open>
  Lines 98 to 103 of \<open>generate_dataset\<close>: every batch is processed by a call of its own,
  which loads the network anew; the passes of all the calls, in the order of the batches.
\<close>

definition generate_all ::
  "('r, 's, 'img) ifs_ops \<Rightarrow> ('r, 'img, 'net, 'cimg, 'bg) post_ops \<Rightarrow> 'w generator
     \<Rightarrow> 'bg \<Rightarrow> 'net \<Rightarrow> (ifs_param list list \<times> real list list \<times> nat list) list
     \<Rightarrow> (string \<times> 'img \<times> 'cimg) list" where
  "generate_all ifs post self background_colors net batches =
     concat (map (\<lambda>batch. fst (generate_image_batch ifs post self background_colors net batch))
               batches)"

text \<open>
  The loop as section 4.6 of the specification words it, for comparison with the loop of
  the code: the background colour is drawn from the generator of the synthesis,
  continuing its stream.
\<close>

fun image_batch_loop_continuing ::
  "('r, 's, 'img) ifs_ops \<Rightarrow> ('r, 'img, 'net, 'cimg, 'bg) post_ops \<Rightarrow> 'w generator
     \<Rightarrow> 'bg \<Rightarrow> 'net \<Rightarrow> (nat \<times> ifs_param list \<times> real list) list
     \<Rightarrow> (string \<times> 'img \<times> 'cimg) list \<times> 'net" where
  "image_batch_loop_continuing ifs post self background_colors net [] = ([], net)"
| "image_batch_loop_continuing ifs post self background_colors net ((i, param, w) # rest) =
     (case generate_image ifs (Random ifs (int i)) param (iterations self)
             (height self) (width self) False (Some w) of
        (img, rng1) \<Rightarrow>
          (case colorize post img net of
             (color_image, net1) \<Rightarrow>
               (let aug_image = augment post rng1 color_image background_colors;
                    path = osp_join (output_dir self) (file_name i)
                in case image_batch_loop_continuing ifs post self background_colors net1 rest of
                     (saved, net2) \<Rightarrow> ((path, img, aug_image) # saved, net2))))"

text \<open>
  A post-processing for the examples: the colour image is the raster, and the augmented
  image is the sum of the raster and the state of the generator \<open>augment\<close> is given.
\<close>

definition scripted_post :: "(nat, nat, unit, nat, unit) post_ops" where
  "scripted_post =
     \<lparr> colorize = (\<lambda>img net. (img, net)),
       augment = (\<lambda>r color_image background_colors. color_image + r) \<rparr>"

section \<open>\<open>Converter.patch\<close>\<close>

text \<open>
  The file system as \<open>patch\<close> sees it: a directory has its permission bits and the files
  below it, given by their relative names and data; a path that is bound to nothing does
  not exist.
\<close>

datatype node = Directory nat "(string \<times> string) list"

type_synonym file_system = "string \<rightharpoonup> node"

definition isdir :: "string \<Rightarrow> file_system \<Rightarrow> bool" where
  "isdir path fs = (fs path \<noteq> None)"

text \<open>\<open>os.path.basename\<close> and \<open>os.path.dirname\<close>: the path is split at its last slash.\<close>

definition basename :: "string \<Rightarrow> string" where
  "basename path = rev (takeWhile (\<lambda>c. c \<noteq> CHR ''/'') (rev path))"

definition dirname :: "string \<Rightarrow> string" where
  "dirname path =
     (let head = rev (dropWhile (\<lambda>c. c \<noteq> CHR ''/'') (rev path))
      in if head \<noteq> [] \<and> \<not> list_all (\<lambda>c. c = CHR ''/'') head
         then rev (dropWhile (\<lambda>c. c = CHR ''/'') (rev head))
         else head)"

text \<open>
  \<open>tempfile.mkdtemp(dir, prefix, suffix)\<close>: the random names are tried in turn and the first
  path that does not exist yet is created, empty and with mode \<open>0o700\<close>; when every name is
  taken the call raises \<open>FileExistsError\<close>. \<open>names\<close> is the sequence of random names.
\<close>

definition mkdtemp ::
  "string list \<Rightarrow> string \<Rightarrow> string \<Rightarrow> string \<Rightarrow> file_system
     \<Rightarrow> (py_error + string) \<times> file_system" where
  "mkdtemp names dir prefix suffix fs =
     (case find (\<lambda>name. fs (osp_join dir (prefix @ name @ suffix)) = None) names of
        None \<Rightarrow> (Inl FileExistsError, fs)
      | Some name \<Rightarrow>
          (let file = osp_join dir (prefix @ name @ suffix)
           in (Inr file, fs(file \<mapsto> Directory 448 []))))"

text \<open>\<open>shutil.copymode(src, dst)\<close>, \<open>rmtree(path)\<close> and \<open>os.replace(src, dst)\<close>.\<close>

definition copymode :: "string \<Rightarrow> string \<Rightarrow> file_system \<Rightarrow> file_system" where
  "copymode src dst fs =
     (case (fs src, fs dst) of
        (Some (Directory mode _), Some (Directory _ files)) \<Rightarrow> fs(dst \<mapsto> Directory mode files)
      | _ \<Rightarrow> fs)"

definition rmtree :: "string \<Rightarrow> file_system \<Rightarrow> file_system" where
  "rmtree path fs = fs(path := None)"

definition os_replace :: "string \<Rightarrow> string \<Rightarrow> file_system \<Rightarrow> file_system" where
  "os_replace src dst fs = (fs(dst := fs src))(src := None)"

text \<open>
  \<open>Converter.patch\<close>. \<open>convert\<close> stands for \<open>cls.convert\<close>, which builds the converter of
  the subclass and applies it: it returns a value or raises, and leaves a file system. The
  decorator \<open>scoped\<close> with \<open>on_error_do(rmtree, tmpdir, ignore_errors=True)\<close> removes the
  temporary directory when the rest of the function raises. The argument \<open>patch\<close> is not
  used by the function.
\<close>

definition patch ::
  "('d \<Rightarrow> string \<Rightarrow> file_system \<Rightarrow> (py_error + 'ret) \<times> file_system) \<Rightarrow> string list
     \<Rightarrow> 'd \<Rightarrow> 'p \<Rightarrow> string \<Rightarrow> file_system \<Rightarrow> (py_error + 'ret) \<times> file_system" where
  "patch convert names dataset patch1 save_dir fs =
     (if \<not> isdir save_dir fs then convert dataset save_dir fs
      else
        (case mkdtemp names (dirname save_dir) (basename save_dir) ''.tmp'' fs of
           (Inl e, fs1) \<Rightarrow> (Inl e, fs1)
         | (Inr tmpdir, fs1) \<Rightarrow>
             (let fs2 = copymode save_dir tmpdir fs1
              in case convert dataset tmpdir fs2 of
                   (Inl e, fs3) \<Rightarrow> (Inl e, rmtree tmpdir fs3)
                 | (Inr retval, fs3) \<Rightarrow>
                     (let fs4 = rmtree save_dir fs3;
                          fs5 = os_replace tmpdir save_dir fs4
                      in (Inr retval, fs5)))))"

text \<open>
  A converter for the examples: it writes one file into the directory it is given and
  then fails for the dataset \<open>''bad''\<close>, and writes two files for any other dataset.
\<close>

definition demo_convert ::
  "string \<Rightarrow> string \<Rightarrow> file_system \<Rightarrow> (py_error + nat) \<times> file_system" where
  "demo_convert dataset save_dir fs =
     (let mode = (case fs save_dir of Some (Directory m _) \<Rightarrow> m | None \<Rightarrow> 493)
      in if dataset = ''bad''
         then (Inl ExportError, fs(save_dir \<mapsto> Directory mode [(''a.txt'', ''new'')]))
         else (Inr 2, fs(save_dir \<mapsto> Directory mode [(''a.txt'', ''new''), (''b.txt'', ''new'')])))"

definition demo_fs :: file_system where
  "demo_fs = [''data/out'' \<mapsto> Directory 493 [(''a.txt'', ''old'')]]"

section \<open>The generator constructed for a large count\<close>


section \<open>Facts about the array primitives\<close>

lemma length_cut_sections: "length (cut_sections ns ary) = length ns"
  by (induction ns arbitrary: ary) simp_all

lemma concat_cut_sections: "concat (cut_sections ns ary) = take (sum_list ns) ary"
proof (induction ns arbitrary: ary)
  case Nil
  show ?case by simp
next
  case (Cons n ns)
  have "take n ary @ take (sum_list ns) (drop n ary) = take (n + sum_list ns) ary"
    by (simp add: take_add)
  with Cons show ?case by simp
qed

lemma map_length_cut_sections:
  "sum_list ns \<le> length ary \<Longrightarrow> map length (cut_sections ns ary) = ns"
  by (induction ns arbitrary: ary) simp_all

lemma sum_list_section_sizes: "0 < k \<Longrightarrow> sum_list (section_sizes n k) = n"
proof -
  assume k: "0 < k"
  have le: "n mod k \<le> k" using k by (simp add: less_imp_le)
  have "sum_list (section_sizes n k)
          = (n mod k) * (n div k + 1) + (k - n mod k) * (n div k)"
    by (simp add: section_sizes_def sum_list_replicate)
  also have "\<dots> = n mod k + ((n mod k) + (k - n mod k)) * (n div k)"
    by (simp add: algebra_simps)
  also have "\<dots> = n mod k + k * (n div k)"
    using le by simp
  also have "\<dots> = n" by simp
  finally show ?thesis .
qed

lemma length_section_sizes: "0 < k \<Longrightarrow> length (section_sizes n k) = k"
  using mod_less_divisor [of k n] by (simp add: section_sizes_def)

lemma set_section_sizes:
  "set (section_sizes n k) \<subseteq> {n div k, n div k + 1}"
  by (auto simp: section_sizes_def)


lemma length_concat_replicate_rows:
  "length (concat (map (replicate m) xs)) = m * length xs"
  by (induction xs) simp_all

lemma length_concat_copies: "length (concat (replicate n xs)) = n * length xs"
  by (induction n) simp_all

section \<open>Facts about the partitioning\<close>

lemma jobs_of_assign_indices:
  "map length ps = map length ws \<Longrightarrow>
   concat (map batch_jobs (assign_indices off (zip ps ws)))
     = zip [off..<off + length (concat ps)] (zip (concat ps) (concat ws))"
proof (induction ps arbitrary: ws off)
  case Nil
  then show ?case by simp
next
  case (Cons p ps)
  then obtain w ws' where ws: "ws = w # ws'" by (cases ws) auto
  with Cons.prems have len: "length p = length w" and rest: "map length ps = map length ws'"
    by simp_all
  have split: "[off..<off + (length p + length (concat ps))]
                 = [off..<off + length p] @ [off + length p..<off + length p + length (concat ps)]"
    using upt_add_eq_append [of off "off + length p" "length (concat ps)"]
    by (simp add: add.assoc)
  have l1: "length [off..<off + length p] = length (zip p w)"
    using len by simp
  have "zip ([off..<off + length p] @ [off + length p..<off + length p + length (concat ps)])
          (zip (p @ concat ps) (w @ concat ws'))
          = zip [off..<off + length p] (zip p w)
            @ zip [off + length p..<off + length p + length (concat ps)]
                (zip (concat ps) (concat ws'))"
    using len l1 by (simp only: zip_append)
  then have "zip [off..<off + length (concat (p # ps))] (zip (concat (p # ps)) (concat ws))
          = zip [off..<off + length p] (zip p w)
            @ zip [off + length p..<off + length p + length (concat ps)]
                (zip (concat ps) (concat ws'))"
    by (simp only: ws concat.simps length_append split)
  with Cons.IH [OF rest, of "off + length p"] show ?case
    by (simp add: ws)
qed

lemma sizes_of_assign_indices:
  "map length ps = map length ws \<Longrightarrow>
   map (\<lambda>b. length (batch_jobs b)) (assign_indices off (zip ps ws)) = map length ps"
proof (induction ps arbitrary: ws off)
  case Nil
  then show ?case by simp
next
  case (Cons p ps)
  then obtain w ws' where ws: "ws = w # ws'" by (cases ws) auto
  with Cons.prems have len: "length p = length w" and rest: "map length ps = map length ws'"
    by simp_all
  from Cons.IH [OF rest, of "off + length p"] len show ?case
    by (simp add: ws)
qed

lemma length_assign_indices: "length (assign_indices off bs) = length bs"
  by (induction off bs rule: assign_indices.induct) simp_all

text \<open>
  When the planner has provided at least \<open>count\<close> rows, the truncation leaves exactly
  \<open>count\<close> of each array, the assertion of line 85 passes and the split succeeds.
\<close>

lemma length_truncated_params:
  assumes "0 < instances self" "int (length params) = categories self"
    and "count self \<le> categories self * instances self * int (length (weights self))"
  shows "length (truncated_params self (params :: 'p list)) = nat (count self)"
proof -
  have "categories self * instances self * int (length (weights self))
          = int (length (weights self) * nat (instances self) * length params)"
    using assms(1,2) by (simp add: mult.commute mult.left_commute)
  with assms(3) have "nat (count self) \<le> length (weights self) * nat (instances self) * length params"
    by linarith
  then show ?thesis
    by (simp add: truncated_params_def length_concat_replicate_rows)
qed

lemma length_truncated_weights:
  assumes "0 < instances self" "0 < categories self"
    and "count self \<le> categories self * instances self * int (length (weights self))"
  shows "length (truncated_weights self) = nat (count self)"
proof -
  have "categories self * instances self * int (length (weights self))
          = int (nat (categories self) * (nat (instances self) * length (weights self)))"
    using assms(1,2) by (simp add: mult.assoc)
  with assms(3)
  have "nat (count self) \<le> nat (categories self) * (nat (instances self) * length (weights self))"
    by linarith
  then show ?thesis
    by (simp add: truncated_weights_def length_concat_replicate_rows length_concat_copies)
qed

lemma partition_jobs_result:
  assumes "0 < count self" "0 < cpu_count self" "0 < instances self" "0 < categories self"
    and "int (length params) = categories self"
    and "count self \<le> categories self * instances self * int (length (weights self))"
  shows "partition_jobs self (params :: 'p list)
           = Inr (assign_indices 0
               (zip (cut_sections (section_sizes (nat (count self))
                                     (nat (min (cpu_count self) (count self))))
                       (truncated_params self params))
                    (cut_sections (section_sizes (nat (count self))
                                     (nat (min (cpu_count self) (count self))))
                       (truncated_weights self))))"
proof -
  have lp: "length (truncated_params self params) = nat (count self)"
    using assms by (intro length_truncated_params) simp_all
  have lw: "length (truncated_weights self) = nat (count self)"
    using assms by (intro length_truncated_weights) simp_all
  have sp: "slice_to (concat (map (replicate (nat (int (length (weights self)) * instances self))) params))
              (count self) = truncated_params self params"
    using assms(1,3) by (simp add: slice_to_def truncated_params_def nat_mult_distrib)
  have sw: "slice_to (concat (replicate (nat (categories self))
              (concat (map (replicate (nat (instances self))) (weights self))))) (count self)
              = truncated_weights self"
    using assms(1) by (simp add: slice_to_def truncated_weights_def)
  let ?k = "min (cpu_count self) (count self)"
  have r1: "np_repeat (weights self) (instances self)
              = Inr (concat (map (replicate (nat (instances self))) (weights self)))"
    using assms(3) by (simp add: np_repeat_def)
  have r2: "np_tile (concat (map (replicate (nat (instances self))) (weights self)))
              (categories self)
              = Inr (concat (replicate (nat (categories self))
                  (concat (map (replicate (nat (instances self))) (weights self)))))"
    using assms(4) by (simp add: np_tile_def)
  have nonneg: "\<not> int (length (weights self)) * instances self < 0"
    using assms(3) by (simp add: mult_less_0_iff)
  have r3: "np_repeat params (int (length (weights self)) * instances self)
              = Inr (concat (map (replicate (nat (int (length (weights self)) * instances self)))
                  params))"
    using nonneg by (simp add: np_repeat_def)
  have kpos: "\<not> ?k \<le> 0"
    using assms(1,2) by linarith
  have a1: "array_split (truncated_params self params) ?k
              = Inr (cut_sections (section_sizes (nat (count self)) (nat ?k))
                  (truncated_params self params))"
    using kpos by (simp only: array_split_def lp if_False)
  have a2: "array_split (truncated_weights self) ?k
              = Inr (cut_sections (section_sizes (nat (count self)) (nat ?k))
                  (truncated_weights self))"
    using kpos by (simp only: array_split_def lw if_False)
  have ok: "int (length (truncated_weights self)) = int (length (truncated_params self params))
              \<and> int (length (truncated_params self params)) = count self"
    using assms(1) by (simp add: lp lw)
  show ?thesis
    unfolding partition_jobs_def
    by (simp only: r1 r2 r3 sp sw a1 a2 ok Let_def sum.case not_True_eq_False if_False simp_thms)
qed

lemma partition_jobs_all_jobs:
  assumes "0 < count self" "0 < cpu_count self" "0 < instances self" "0 < categories self"
    and "int (length params) = categories self"
    and "count self \<le> categories self * instances self * int (length (weights self))"
  shows "\<exists>batches. partition_jobs self (params :: 'p list) = Inr batches
           \<and> length batches = nat (min (cpu_count self) (count self))
           \<and> map (\<lambda>b. length (batch_jobs b)) batches
               = section_sizes (nat (count self)) (nat (min (cpu_count self) (count self)))
           \<and> all_jobs batches
               = zip [0..<nat (count self)]
                   (zip (truncated_params self params) (truncated_weights self))"
proof -
  let ?n = "nat (count self)"
  let ?k = "nat (min (cpu_count self) (count self))"
  let ?ps = "cut_sections (section_sizes ?n ?k) (truncated_params self params)"
  let ?ws = "cut_sections (section_sizes ?n ?k) (truncated_weights self)"
  have kpos: "0 < ?k" using assms(1,2) by simp
  have lp: "length (truncated_params self params) = ?n"
    using assms by (intro length_truncated_params) simp_all
  have lw: "length (truncated_weights self) = ?n"
    using assms by (intro length_truncated_weights) simp_all
  have total: "sum_list (section_sizes ?n ?k) = ?n"
    using kpos by (rule sum_list_section_sizes)
  have mp: "map length ?ps = section_sizes ?n ?k"
    by (rule map_length_cut_sections) (simp add: total lp)
  have mw: "map length ?ws = section_sizes ?n ?k"
    by (rule map_length_cut_sections) (simp add: total lw)
  have same: "map length ?ps = map length ?ws"
    by (simp only: mp mw)
  have cp: "concat ?ps = truncated_params self params"
    by (simp add: concat_cut_sections total lp)
  have cw: "concat ?ws = truncated_weights self"
    by (simp add: concat_cut_sections total lw)
  have res: "partition_jobs self params = Inr (assign_indices 0 (zip ?ps ?ws))"
    using assms by (rule partition_jobs_result)
  have len: "length (assign_indices 0 (zip ?ps ?ws)) = ?k"
    using kpos by (simp add: length_assign_indices length_cut_sections length_section_sizes)
  have sizes: "map (\<lambda>b. length (batch_jobs b)) (assign_indices 0 (zip ?ps ?ws))
                 = section_sizes ?n ?k"
    using sizes_of_assign_indices [OF same, of 0] by (simp only: mp)
  have jobs: "all_jobs (assign_indices 0 (zip ?ps ?ws))
                = zip [0..<?n] (zip (truncated_params self params) (truncated_weights self))"
    unfolding all_jobs_def
    using jobs_of_assign_indices [OF same, of 0] by (simp add: cp cw lp)
  from res len sizes jobs show ?thesis by blast
qed

text \<open>
  The index assignment when the plan is large enough. For a requested count \<open>N > 0\<close> and
  a layout that provides at least \<open>N\<close> rows, the partitioning step succeeds and yields
  exactly \<open>N\<close> jobs; their global indices are \<open>0, \<dots>, N - 1\<close>, all distinct; the job at
  position \<open>k\<close> of the truncated job list has index \<open>k\<close>; and the job list is the same
  for every positive worker count.
\<close>

theorem partition_exact_indices:
  assumes "0 < count self" "0 < cpu_count self" "0 < instances self" "0 < categories self"
    and "int (length params) = categories self"
    and "count self \<le> categories self * instances self * int (length (weights self))"
  shows "\<exists>batches. partition_jobs self (params :: 'p list) = Inr batches
           \<and> length (all_jobs batches) = nat (count self)
           \<and> map fst (all_jobs batches) = [0..<nat (count self)]
           \<and> distinct (map fst (all_jobs batches))
           \<and> (\<forall>k < nat (count self).
                 all_jobs batches ! k
                   = (k, truncated_params self params ! k, truncated_weights self ! k))
           \<and> (\<forall>c. 0 < c \<longrightarrow>
                 map_sum id all_jobs (partition_jobs (self\<lparr>cpu_count := c\<rparr>) params)
                   = Inr (all_jobs batches))"
proof -
  let ?n = "nat (count self)"
  let ?jobs = "zip [0..<?n] (zip (truncated_params self params) (truncated_weights self))"
  have lp: "length (truncated_params self params) = ?n"
    using assms by (intro length_truncated_params) simp_all
  have lw: "length (truncated_weights self) = ?n"
    using assms by (intro length_truncated_weights) simp_all
  from partition_jobs_all_jobs [OF assms] obtain batches where
    b: "partition_jobs self params = Inr batches" and j: "all_jobs batches = ?jobs"
    by blast
  have l: "length ?jobs = ?n" by (simp add: lp lw)
  have f: "map fst ?jobs = [0..<?n]" by (simp add: lp lw)
  have nth: "\<forall>k < ?n. ?jobs ! k = (k, truncated_params self params ! k, truncated_weights self ! k)"
    by (simp add: lp lw)
  have indep: "\<forall>c. 0 < c \<longrightarrow>
                 map_sum id all_jobs (partition_jobs (self\<lparr>cpu_count := c\<rparr>) params) = Inr ?jobs"
  proof (intro allI impI)
    fix c :: int
    assume c: "0 < c"
    let ?self' = "self\<lparr>cpu_count := c\<rparr>"
    have "\<exists>bs. partition_jobs ?self' params = Inr bs
            \<and> length bs = nat (min (cpu_count ?self') (count ?self'))
            \<and> map (\<lambda>b. length (batch_jobs b)) bs
                = section_sizes (nat (count ?self')) (nat (min (cpu_count ?self') (count ?self')))
            \<and> all_jobs bs = zip [0..<nat (count ?self')]
                   (zip (truncated_params ?self' params) (truncated_weights ?self'))"
      using assms c by (intro partition_jobs_all_jobs) simp_all
    then obtain bs where "partition_jobs ?self' params = Inr bs"
      and "all_jobs bs = zip [0..<nat (count ?self')]
                   (zip (truncated_params ?self' params) (truncated_weights ?self'))"
      by blast
    then show "map_sum id all_jobs (partition_jobs ?self' params) = Inr ?jobs"
      by (simp add: truncated_params_def truncated_weights_def)
  qed
  from b j l f nth indep show ?thesis
    by (metis distinct_upt)
qed

lemma demo_truncated_params: "truncated_params demo_generator ''A'' = replicate 5 (CHR ''A'')"
  by (simp add: demo_generator_def truncated_params_def)

lemma demo_truncated_weights: "truncated_weights demo_generator = [[10], [10], [11], [11], [12]]"
  by (simp add: demo_generator_def truncated_weights_def eval_nat_numeral)

lemma demo_count: "nat (count demo_generator) = 5" "cpu_count demo_generator = 2"
  by (simp_all add: demo_generator_def)

theorem partition_exact_indices_witness:
  "\<exists>batches. partition_jobs demo_generator ''A'' = Inr batches
     \<and> length (all_jobs batches) = 5
     \<and> map fst (all_jobs batches) = [0..<5]
     \<and> all_jobs batches ! 3 = (3, CHR ''A'', [11])"
proof -
  have "\<exists>batches. partition_jobs demo_generator ''A'' = Inr batches
           \<and> length (all_jobs batches) = nat (count demo_generator)
           \<and> map fst (all_jobs batches) = [0..<nat (count demo_generator)]
           \<and> distinct (map fst (all_jobs batches))
           \<and> (\<forall>k < nat (count demo_generator).
                 all_jobs batches ! k
                   = (k, truncated_params demo_generator ''A'' ! k,
                      truncated_weights demo_generator ! k))
           \<and> (\<forall>c. 0 < c \<longrightarrow>
                 map_sum id all_jobs (partition_jobs (demo_generator\<lparr>cpu_count := c\<rparr>) ''A'')
                   = Inr (all_jobs batches))"
    by (rule partition_exact_indices) (simp_all add: demo_generator_def)
  then obtain batches where b: "partition_jobs demo_generator ''A'' = Inr batches"
    and l: "length (all_jobs batches) = nat (count demo_generator)"
    and f: "map fst (all_jobs batches) = [0..<nat (count demo_generator)]"
    and n: "\<forall>k < nat (count demo_generator).
                 all_jobs batches ! k
                   = (k, truncated_params demo_generator ''A'' ! k,
                      truncated_weights demo_generator ! k)"
    by blast
  from n have "all_jobs batches ! 3 = (3, CHR ''A'', [11])"
    by (simp add: demo_count demo_truncated_params demo_truncated_weights)
  with b l f show ?thesis
    by (simp add: demo_count)
qed

text \<open>
  The split when the plan is large enough. For \<open>N > 0\<close> and a layout that provides at
  least \<open>N\<close> rows, the truncated job list is split into exactly \<open>min(worker_count, N)\<close>
  batches, the sizes of any two batches differ by at most one, and the batches' job lists
  concatenated in batch order are the truncated job list.
\<close>

theorem batches_balanced_in_order:
  assumes "0 < count self" "0 < cpu_count self" "0 < instances self" "0 < categories self"
    and "int (length params) = categories self"
    and "count self \<le> categories self * instances self * int (length (weights self))"
  shows "\<exists>batches. partition_jobs self (params :: 'p list) = Inr batches
           \<and> length batches = nat (min (cpu_count self) (count self))
           \<and> (\<forall>b \<in> set batches. \<forall>b' \<in> set batches.
                 length (batch_jobs b) \<le> length (batch_jobs b') + 1)
           \<and> concat (map batch_jobs batches)
               = zip [0..<nat (count self)]
                   (zip (truncated_params self params) (truncated_weights self))"
proof -
  let ?n = "nat (count self)"
  let ?k = "nat (min (cpu_count self) (count self))"
  from partition_jobs_all_jobs [OF assms] obtain batches where
    b: "partition_jobs self params = Inr batches"
    and len: "length batches = ?k"
    and sizes: "map (\<lambda>b. length (batch_jobs b)) batches = section_sizes ?n ?k"
    and j: "all_jobs batches
              = zip [0..<?n] (zip (truncated_params self params) (truncated_weights self))"
    by blast
  have range: "length (batch_jobs b) \<in> {?n div ?k, ?n div ?k + 1}" if "b \<in> set batches" for b
  proof -
    from that have "length (batch_jobs b) \<in> set (map (\<lambda>b. length (batch_jobs b)) batches)"
      by (simp add: image_iff) blast
    with sizes set_section_sizes [of ?n ?k] show ?thesis by auto
  qed
  have bal: "\<forall>b \<in> set batches. \<forall>b' \<in> set batches.
               length (batch_jobs b) \<le> length (batch_jobs b') + 1"
  proof (intro ballI)
    fix b b' assume "b \<in> set batches" "b' \<in> set batches"
    from range [OF this(1)] range [OF this(2)]
    show "length (batch_jobs b) \<le> length (batch_jobs b') + 1" by auto
  qed
  from b len bal j show ?thesis
    unfolding all_jobs_def by blast
qed

theorem batches_balanced_in_order_witness:
  "\<exists>batches. partition_jobs demo_generator ''A'' = Inr batches
     \<and> length batches = 2
     \<and> concat (map batch_jobs batches)
         = zip [0..<5] (zip (replicate 5 (CHR ''A'')) [[10], [10], [11], [11], [12]])"
proof -
  have "\<exists>batches. partition_jobs demo_generator ''A'' = Inr batches
           \<and> length batches = nat (min (cpu_count demo_generator) (count demo_generator))
           \<and> (\<forall>b \<in> set batches. \<forall>b' \<in> set batches.
                 length (batch_jobs b) \<le> length (batch_jobs b') + 1)
           \<and> concat (map batch_jobs batches)
               = zip [0..<nat (count demo_generator)]
                   (zip (truncated_params demo_generator ''A'') (truncated_weights demo_generator))"
    by (rule batches_balanced_in_order) (simp_all add: demo_generator_def)
  then obtain batches where b: "partition_jobs demo_generator ''A'' = Inr batches"
    and l: "length batches = nat (min (cpu_count demo_generator) (count demo_generator))"
    and c: "concat (map batch_jobs batches)
               = zip [0..<nat (count demo_generator)]
                   (zip (truncated_params demo_generator ''A'') (truncated_weights demo_generator))"
    by blast
  have "nat (min (cpu_count demo_generator) (count demo_generator)) = 2"
    by (simp add: demo_generator_def)
  with b l c show ?thesis
    by (simp add: demo_count demo_truncated_params demo_truncated_weights)
qed

section \<open>Facts about double-precision rounding\<close>

lemma round_half_even_of_int: "round_half_even (of_int m) = m"
  by (simp add: round_half_even_def)

lemma floor_log2_binade:
  assumes "2 powr of_int e \<le> x" "x < 2 powr (of_int e + 1)"
  shows "\<lfloor>log 2 x\<rfloor> = e"
proof -
  have pos: "0 < x" using assms(1) by (smt (verit) powr_gt_zero)
  have "of_int e \<le> log 2 x" using assms(1) pos by (simp add: le_log_iff)
  moreover have "log 2 x < of_int e + 1" using assms(2) pos by (simp add: log_less_iff)
  ultimately show ?thesis by (intro floor_unique) simp_all
qed

lemma binary64_binade:
  assumes "2 powr of_int e \<le> \<bar>x\<bar>" "\<bar>x\<bar> < 2 powr (of_int e + 1)"
  shows "binary64 x = of_int (round_half_even (x / 2 powr (of_int e - 52))) * 2 powr (of_int e - 52)"
proof -
  have "x \<noteq> 0" using assms(1) by (smt (verit) powr_gt_zero)
  moreover have "\<lfloor>log 2 \<bar>x\<bar>\<rfloor> = e" using assms by (rule floor_log2_binade)
  ultimately show ?thesis by (simp add: binary64_def Let_def)
qed

lemma binade_exists:
  assumes "0 < (x::real)"
  shows "2 powr of_int \<lfloor>log 2 x\<rfloor> \<le> x \<and> x < 2 powr (of_int \<lfloor>log 2 x\<rfloor> + 1)"
proof -
  have x: "2 powr log 2 x = x" using assms by simp
  have "(2::real) powr of_int \<lfloor>log 2 x\<rfloor> \<le> 2 powr log 2 x"
    by (simp only: powr_le_cancel_iff one_less_numeral_iff semiring_norm of_int_floor_le)
  then have a: "2 powr of_int \<lfloor>log 2 x\<rfloor> \<le> x" by (simp only: x)
  have "log 2 x < of_int \<lfloor>log 2 x\<rfloor> + 1" by linarith
  then have "(2::real) powr log 2 x < 2 powr (of_int \<lfloor>log 2 x\<rfloor> + 1)"
    by (simp only: powr_less_cancel_iff one_less_numeral_iff semiring_norm)
  then have b: "x < 2 powr (of_int \<lfloor>log 2 x\<rfloor> + 1)" by (simp only: x)
  from a b show ?thesis ..
qed

lemma powr_int_nonneg: "0 \<le> k \<Longrightarrow> (2::real) powr of_int k = of_int (2 ^ nat k)"
  by (simp add: powr_realpow [symmetric])

lemma binary64_mantissa:
  assumes "\<bar>m\<bar> < 2 ^ 53"
  shows "binary64 (of_int m * 2 powr of_int e) = of_int m * 2 powr of_int e"
proof (cases "m = 0")
  case True
  then show ?thesis by (simp add: binary64_def)
next
  case False
  let ?x = "of_int m * 2 powr of_int e :: real"
  let ?E = "\<lfloor>log 2 \<bar>?x\<bar>\<rfloor>"
  have xpos: "0 < \<bar>?x\<bar>" using False by simp
  from binade_exists [OF xpos] have lo: "2 powr of_int ?E \<le> \<bar>?x\<bar>" by simp
  have "\<bar>?x\<bar> = of_int \<bar>m\<bar> * 2 powr of_int e" by (simp add: abs_mult)
  also have "\<dots> < 2 ^ 53 * 2 powr of_int e"
  proof -
    have "(of_int \<bar>m\<bar> :: real) < of_int (2 ^ 53)" using assms by (simp only: of_int_less_iff)
    then show ?thesis by simp
  qed
  also have "\<dots> = 2 powr (53 + of_int e)"
    by (simp add: powr_add)
  finally have "2 powr of_int ?E < (2::real) powr (53 + of_int e)" using lo by linarith
  then have "of_int ?E < (53::real) + of_int e" by simp
  then have le: "?E - 52 \<le> e" by linarith
  define k where "k = e - (?E - 52)"
  have k: "0 \<le> k" using le by (simp add: k_def)
  have "?x / 2 powr (of_int ?E - 52) = of_int m * 2 powr (of_int e - (of_int ?E - 52))"
    by (simp add: powr_diff)
  also have "of_int e - (of_int ?E - 52) = (of_int k :: real)" by (simp add: k_def)
  also have "of_int m * 2 powr of_int k = (of_int (m * 2 ^ nat k) :: real)"
    using k by (simp add: powr_int_nonneg)
  finally have q: "?x / 2 powr (of_int ?E - 52) = of_int (m * 2 ^ nat k)" .
  have "binary64 ?x = of_int (m * 2 ^ nat k) * 2 powr (of_int ?E - 52)"
    using False by (simp add: binary64_def Let_def q round_half_even_of_int del: of_int_mult of_int_power)
  also have "\<dots> = (?x / 2 powr (of_int ?E - 52)) * 2 powr (of_int ?E - 52)"
    by (simp only: q)
  also have "\<dots> = ?x" by simp
  finally show ?thesis .
qed

lemma binary64_of_int: "\<bar>n\<bar> < 2 ^ 53 \<Longrightarrow> binary64 (of_int n) = of_int n"
  using binary64_mantissa [of n 0] by simp

lemma length_create_weights: "length (create_weights p) = 1 + 4 * p"
  by (simp add: create_weights_def Let_def length_concat sum_list_triv o_def)

lemma round_half_even_example: "round_half_even (112589990684262401 / 25) = 4503599627370496"
  by (simp add: round_half_even_def Let_def)

lemma binary64_example_quotient: "binary64 (112589990684262401 / 25) = 4503599627370496"
proof -
  have "binary64 (112589990684262401 / 25)
          = of_int (round_half_even (112589990684262401 / 25 / 2 powr (of_int 52 - 52)))
              * 2 powr (of_int 52 - 52)"
    by (rule binary64_binade) (simp_all add: powr_realpow [symmetric] del: powr_numeral)
  then show ?thesis by (simp add: round_half_even_example)
qed

lemma sqrt_two_52: "sqrt 4503599627370496 = 67108864"
  by (rule real_sqrt_unique) simp_all

lemma binary64_two_26: "binary64 67108864 = 67108864"
  using binary64_of_int [of 67108864] by simp

section \<open>The constructor and the planner at concrete inputs\<close>

lemma demo_paths:
  "osp_join ''/work'' MODEL_PROTO_NAME = ''/work/colorization_deploy_v2.prototxt''"
  "osp_join ''/work'' MODEL_CONFIG_NAME = ''/work/colorization_release_v2.caffemodel''"
  "osp_join ''/work'' HULL_PTS_FILE_NAME = ''/work/pts_in_hull.npy''"
  by (simp_all add: osp_join_def MODEL_PROTO_NAME_def MODEL_CONFIG_NAME_def HULL_PTS_FILE_NAME_def)

lemma demo_existing:
  "''/work/colorization_deploy_v2.prototxt'' \<in> existing demo_env"
  "''/work/colorization_release_v2.caffemodel'' \<in> existing demo_env"
  "''/work/pts_in_hull.npy'' \<in> existing demo_env"
  unfolding demo_env_def by (simp_all only: env.simps insertI1 insertI2)

lemma fetch_existing: "p \<in> existing e \<Longrightarrow> fetch_missing p e = (Inr (), e)"
  by (simp add: fetch_missing_def)

lemma download_all_present:
  assumes "osp_join path MODEL_PROTO_NAME \<in> existing e"
    "osp_join path MODEL_CONFIG_NAME \<in> existing e"
    "osp_join path HULL_PTS_FILE_NAME \<in> existing e"
  shows "download_colorization_model path e = (Inr (), e)"
  using assms by (simp add: download_colorization_model_def fetch_existing Let_def)

lemma download_demo_env: "download_colorization_model ''/work'' demo_env = (Inr (), demo_env)"
  by (rule download_all_present) (simp_all only: demo_paths demo_existing)

lemma astype_int_of_int: "- (2 ^ 63) \<le> n \<Longrightarrow> n < 2 ^ 63 \<Longrightarrow> astype_int (of_int n) = n"
proof -
  assume a: "- (2 ^ 63) \<le> n" "n < 2 ^ 63"
  have "(of_int (- (2 ^ 63)) :: real) \<le> of_int n" using a(1) by (simp only: of_int_le_iff)
  moreover have "(of_int n :: real) < of_int (2 ^ 63)" using a(2) by (simp only: of_int_less_iff)
  ultimately have "- (2 ^ 63) \<le> (of_int n :: real)" "(of_int n :: real) < 2 ^ 63"
    by simp_all
  then show ?thesis by (simp add: astype_int_def)
qed

lemma initialize_params_underprovision:
  assumes "count self = 112589990684262401" "length (weights self) = 25"
  shows "initialize_params self
           = Inr (self\<lparr>weights := weights self, instances := 67108864, categories := 67108864\<rparr>)"
proof -
  have q: "true_divide 112589990684262401 25 = Inr 4503599627370496"
    by (simp add: true_divide_def binary64_example_quotient)
  have c: "np_ceil 4503599627370496 = 4503599627370496"
    by (simp add: np_ceil_def)
  have s: "np_sqrt 4503599627370496 = 67108864"
    by (simp add: np_sqrt_def sqrt_two_52 binary64_two_26)
  have i: "astype_int (np_ceil 67108864) = 67108864"
    using astype_int_of_int [of 67108864] by (simp add: np_ceil_def)
  have d: "np_divide 4503599627370496 67108864 = 67108864"
    using binary64_of_int [of 67108864] by (simp add: np_divide_def)
  show ?thesis
    by (simp add: initialize_params_def assms q c s i d Let_def)
qed

lemma initialize_params_one:
  assumes "count self = 1" "weights self \<noteq> []"
  shows "initialize_params self
           = Inr (self\<lparr>weights := [hd (weights self)], instances := 1, categories := 1\<rparr>)"
proof -
  have w: "(if count self < int (length (weights self)) then slice_to (weights self) (count self)
            else weights self) = [hd (weights self)]"
    using assms by (cases "weights self") (auto simp: slice_to_def)
  have b: "binary64 1 = 1" using binary64_of_int [of 1] by simp
  have q: "true_divide 1 1 = Inr 1"
    by (simp add: true_divide_def b)
  have i: "astype_int 1 = 1"
    using astype_int_of_int [of 1] by simp
  show ?thesis
    unfolding initialize_params_def w
    by (simp add: assms q b i np_ceil_def np_sqrt_def np_divide_def Let_def)
qed

lemma init_assert_count: "count1 \<le> 0 \<Longrightarrow> init p out count1 shape mp e = (Inl AssertionError, e)"
  by (simp add: init_def)

lemma hd_create_weights: "hd (create_weights p) = replicate p 1"
  by (simp add: create_weights_def Let_def)

text \<open>
  Against claim C9 as stated: with count 1 and the shape \<open>(0, -3)\<close> the construction
  succeeds and stores height 0 and width \<open>-3\<close>.
\<close>

theorem init_accepts_nonpositive_shape:
  "init 6 ''out'' 1 [0, - 3] None demo_env
     = (Inr \<lparr> count = 1, output_dir = ''out'', model_dir = ''/work'', cpu_count = 1,
               height = 0, width = - 3, weights = [[1, 1, 1, 1, 1, 1]],
               threshold = 2 / 10, iterations = 200000, num_of_points = 100000,
               instances = 1, categories = 1 \<rparr>, demo_env)"
proof -
  have cw: "create_weights 6 \<noteq> []" by (simp add: create_weights_def Let_def)
  have e: "cwd demo_env = ''/work''" "os_cpu_count demo_env = Some 8"
    by (simp_all add: demo_env_def)
  have h: "replicate 6 (1::real) = [1, 1, 1, 1, 1, 1]" by (simp add: eval_nat_numeral)
  show ?thesis
    by (simp add: init_def e download_demo_env initialize_params_one cw hd_create_weights h Let_def)
qed

text \<open>
  Claim C2 at the count \<open>25 * 2^52 + 1\<close>: the quotient \<open>count / 25\<close> is rounded down to the
  double \<open>2^52\<close>, the plan is \<open>2^26\<close> instances of \<open>2^26\<close> categories, and
  \<open>categories * instances * W\<close> is \<open>count - 1\<close>: the plan provides one row too few, and
  the assertion of line 85 of \<open>generate_dataset\<close> cannot hold.
\<close>

theorem planner_underprovisions_large_count:
  "\<exists>self. init 6 ''out'' 112589990684262401 [64, 64] None demo_env = (Inr self, demo_env)
      \<and> count self = 112589990684262401
      \<and> instances self = 67108864 \<and> categories self = 67108864
      \<and> length (weights self) = 25
      \<and> categories self * instances self * int (length (weights self)) < count self"
proof -
  have e: "cwd demo_env = ''/work''" "os_cpu_count demo_env = Some 8"
    by (simp_all add: demo_env_def)
  show ?thesis
    by (simp add: init_def e download_demo_env initialize_params_underprovision
        length_create_weights Let_def)
qed

text \<open>
  Claim C9, as the code has it. A count \<open>N \<le> 0\<close> fails the first assertion: the
  construction ends with \<open>AssertionError\<close> and has touched nothing. Of the shape only the
  number of entries is asserted: with two entries, whatever their sign, the construction
  does what it does for the shape \<open>(1, 1)\<close> and stores the two entries as height and width.
\<close>

theorem init_checks_count_not_dimensions:
  "(count1 \<le> 0 \<longrightarrow> init p out count1 shape mp e = (Inl AssertionError, e))
   \<and> (0 < count1 \<and> os_cpu_count e \<noteq> None \<and> length shape \<noteq> 2
        \<longrightarrow> init p out count1 shape mp e = (Inl AssertionError, e))
   \<and> (length shape = 2
        \<longrightarrow> init p out count1 shape mp e
            = map_prod (map_sum id (\<lambda>g. g\<lparr>height := shape ! 0, width := shape ! 1\<rparr>)) id
                (init p out count1 [1, 1] mp e))"
proof (intro conjI impI)
  assume "count1 \<le> 0"
  then show "init p out count1 shape mp e = (Inl AssertionError, e)"
    by (rule init_assert_count)
next
  assume "0 < count1 \<and> os_cpu_count e \<noteq> None \<and> length shape \<noteq> 2"
  then show "init p out count1 shape mp e = (Inl AssertionError, e)"
    by (auto simp: init_def Let_def)
next
  assume len: "length shape = 2"
  show "init p out count1 shape mp e
            = map_prod (map_sum id (\<lambda>g. g\<lparr>height := shape ! 0, width := shape ! 1\<rparr>)) id
                (init p out count1 [1, 1] mp e)"
    by (simp add: init_def Let_def len initialize_params_def
        split: option.splits prod.splits sum.splits)
qed

theorem init_checks_count_not_dimensions_witness:
  "init 6 ''out'' 0 [4, 4] None demo_env = (Inl AssertionError, demo_env)
   \<and> init 6 ''out'' 1 [7] None demo_env = (Inl AssertionError, demo_env)
   \<and> init 6 ''out'' 1 [0, - 3] None demo_env
       = map_prod (map_sum id (\<lambda>g. g\<lparr>height := 0, width := - 3\<rparr>)) id
           (init 6 ''out'' 1 [1, 1] None demo_env)"
  using init_checks_count_not_dimensions [of 0 6 "''out''" "[4, 4]" None demo_env]
    init_checks_count_not_dimensions [of 1 6 "''out''" "[7]" None demo_env]
    init_checks_count_not_dimensions [of 1 6 "''out''" "[0, - 3]" None demo_env]
  by (simp add: demo_env_def)

section \<open>Facts about the sampler\<close>

lemma length_draw_uniforms: "length (fst (draw_uniforms ops n rng)) = n"
proof (induction n arbitrary: rng)
  case 0
  show ?case by simp
next
  case (Suc n)
  obtain x rng1 where u: "uniform ops (- 1) 1 rng = (x, rng1)"
    by (cases "uniform ops (- 1) 1 rng")
  obtain xs rng2 where d: "draw_uniforms ops n rng1 = (xs, rng2)"
    by (cases "draw_uniforms ops n rng1")
  from Suc [of rng1] show ?case by (simp add: u d)
qed

lemma six_elements:
  assumes "length cs = 6"
  obtains a b c d e f where "cs = [a, b, c, d, e, f]"
proof -
  from assms obtain a cs1 where 1: "cs = a # cs1" "length cs1 = 5" by (cases cs) auto
  then obtain b cs2 where 2: "cs1 = b # cs2" "length cs2 = 4" by (cases cs1) auto
  then obtain c cs3 where 3: "cs2 = c # cs3" "length cs3 = 3" by (cases cs2) auto
  then obtain d cs4 where 4: "cs3 = d # cs4" "length cs4 = 2" by (cases cs3) auto
  then obtain e cs5 where 5: "cs4 = e # cs5" "length cs5 = 1" by (cases cs4) auto
  then obtain f where 6: "cs5 = [f]" by (cases cs5) auto
  from 1 2 3 4 5 6 that show ?thesis by simp
qed

lemma sample_rows_total:
  "\<exists>rows1 s1 rng1. sample_rows ops 6 n rows s rng = Inr (rows1, s1, rng1)"
proof (induction n arbitrary: rows s rng)
  case 0
  show ?case by simp
next
  case (Suc n)
  obtain cs rng1 where d: "draw_uniforms ops 6 rng = (cs, rng1)" by (cases "draw_uniforms ops 6 rng")
  have "length cs = 6" using length_draw_uniforms [of ops 6 rng] by (simp add: d)
  then obtain a b c d' e f where cs: "cs = [a, b, c, d', e, f]" by (rule six_elements)
  let ?prob = "\<bar>binary64 (binary64 (a * d') - binary64 (b * c))\<bar>"
  have "sample_rows ops 6 (Suc n) rows s rng
          = sample_rows ops 6 n (rows @ [(map binary32 [a, b, c, d', e, f], binary32 ?prob)])
              (binary64 (s + ?prob)) rng1"
    by (simp add: d cs Let_def)
  with Suc [of "rows @ [(map binary32 [a, b, c, d', e, f], binary32 ?prob)]"
      "binary64 (s + ?prob)" rng1]
  show ?case by simp
qed

lemma next_candidate_total:
  assumes "0 \<le> fst (randint ops 2 7 rng)" "base_h * base_w \<noteq> 0"
  shows "\<exists>params pixels rng1.
           next_candidate ops self 6 base_h base_w rng = Inr (params, pixels, rng1)
           \<and> (\<exists>c :: nat. pixels = real c / of_int (base_h * base_w))"
proof -
  obtain size rng1 where ri: "randint ops 2 7 rng = (size, rng1)" by (cases "randint ops 2 7 rng")
  with assms(1) have size: "\<not> size < 0" by simp
  from sample_rows_total [of ops "nat size" "[]" "binary64 (1 / 100000)" rng1]
  obtain rows s rng2 where
    sr: "sample_rows ops 6 (nat size) [] (binary64 (1 / 100000)) rng1 = Inr (rows, s, rng2)"
    by auto
  let ?params = "map (\<lambda>(cs, prob). (cs, binary32 (prob / binary32 s))) rows"
  obtain img rng3 where gi: "generate_image ops rng2 ?params (num_of_points self) base_h base_w True None
                               = (img, rng3)"
    by (cases "generate_image ops rng2 ?params (num_of_points self) base_h base_w True None")
  have res: "next_candidate ops self 6 base_h base_w rng
               = Inr (?params, real (count_nonzero ops img) / of_int (base_h * base_w), rng3)"
    using size assms(2) by (simp add: next_candidate_def ri sr gi del: of_int_mult)
  then show ?thesis by blast
qed

lemma category_loop_stop:
  "\<not> (pixels < threshold self \<and> i < iterations self) \<Longrightarrow>
   category_loop ops self np bh bw pixels i params rng = Inr (pixels, i, params, rng)"
  by (subst category_loop.simps) auto

lemma category_loop_pass:
  "pixels < threshold self \<Longrightarrow> i < iterations self \<Longrightarrow>
   next_candidate ops self np bh bw rng = Inr (params1, pixels1, rng1) \<Longrightarrow>
   category_loop ops self np bh bw pixels i params rng
     = category_loop ops self np bh bw pixels1 (i + 1) (Some params1) rng1"
  by (subst category_loop.simps) simp

lemma category_loop_run:
  assumes ok: "\<And>r. \<exists>c. next_candidate ops self np bh bw r = Inr c"
  shows "pixels < threshold self \<Longrightarrow> i < iterations self \<Longrightarrow>
         nat (iterations self - i) = Suc m \<Longrightarrow>
         \<exists>n params1 pixels1 rng1.
           category_loop ops self np bh bw pixels i params rng
             = Inr (pixels1, i + 1 + int n, Some params1, rng1)
           \<and> i + 1 + int n \<le> iterations self
           \<and> nth_candidate ops self np bh bw rng n = Inr (params1, pixels1, rng1)
           \<and> (\<forall>k<n. \<exists>p px r. nth_candidate ops self np bh bw rng k = Inr (p, px, r)
                        \<and> px < threshold self)
           \<and> (i + 1 + int n < iterations self \<longrightarrow> \<not> pixels1 < threshold self)"
proof (induction m arbitrary: pixels i params rng)
  case 0
  from ok [of rng] obtain p1 px1 r1 where nc: "next_candidate ops self np bh bw rng = Inr (p1, px1, r1)"
    by (metis prod_cases3)
  from 0 have last: "i + 1 = iterations self" by linarith
  have "category_loop ops self np bh bw pixels i params rng
          = category_loop ops self np bh bw px1 (i + 1) (Some p1) r1"
    using 0(1,2) nc by (rule category_loop_pass)
  also have "\<dots> = Inr (px1, i + 1, Some p1, r1)"
    using last by (intro category_loop_stop) simp
  finally have "category_loop ops self np bh bw pixels i params rng
          = Inr (px1, i + 1 + int 0, Some p1, r1)" by simp
  moreover have "i + 1 + int 0 \<le> iterations self" using last by simp
  moreover have "nth_candidate ops self np bh bw rng 0 = Inr (p1, px1, r1)" using nc by simp
  moreover have "\<not> i + 1 + int 0 < iterations self" using last by simp
  ultimately show ?case by blast
next
  case (Suc m)
  from ok [of rng] obtain p1 px1 r1 where nc: "next_candidate ops self np bh bw rng = Inr (p1, px1, r1)"
    by (metis prod_cases3)
  have pass: "category_loop ops self np bh bw pixels i params rng
          = category_loop ops self np bh bw px1 (i + 1) (Some p1) r1"
    using Suc.prems(1,2) nc by (rule category_loop_pass)
  from Suc.prems have more: "i + 1 < iterations self" "nat (iterations self - (i + 1)) = Suc m"
    by linarith+
  show ?case
  proof (cases "px1 < threshold self")
    case True
    from Suc.IH [OF True more, of "Some p1" r1]
    obtain n params1 pixels1 rng1 where
      r: "category_loop ops self np bh bw px1 (i + 1) (Some p1) r1
             = Inr (pixels1, i + 1 + 1 + int n, Some params1, rng1)"
      and b: "i + 1 + 1 + int n \<le> iterations self"
      and c: "nth_candidate ops self np bh bw r1 n = Inr (params1, pixels1, rng1)"
      and e: "\<forall>k<n. \<exists>p px r. nth_candidate ops self np bh bw r1 k = Inr (p, px, r)
                        \<and> px < threshold self"
      and l: "i + 1 + 1 + int n < iterations self \<longrightarrow> \<not> pixels1 < threshold self"
      by blast
    have r': "category_loop ops self np bh bw pixels i params rng
             = Inr (pixels1, i + 1 + int (Suc n), Some params1, rng1)"
      using pass r by (simp add: add.assoc)
    have b': "i + 1 + int (Suc n) \<le> iterations self" using b by simp
    have c': "nth_candidate ops self np bh bw rng (Suc n) = Inr (params1, pixels1, rng1)"
      using nc c by simp
    have e': "\<forall>k<Suc n. \<exists>p px r. nth_candidate ops self np bh bw rng k = Inr (p, px, r)
                        \<and> px < threshold self"
    proof (intro allI impI)
      fix k assume k: "k < Suc n"
      show "\<exists>p px r. nth_candidate ops self np bh bw rng k = Inr (p, px, r) \<and> px < threshold self"
      proof (cases k)
        case 0
        with nc True show ?thesis by simp
      next
        case (Suc k')
        with k e have "\<exists>p px r. nth_candidate ops self np bh bw r1 k' = Inr (p, px, r)
                        \<and> px < threshold self" by simp
        with Suc nc show ?thesis by simp
      qed
    qed
    have l': "i + 1 + int (Suc n) < iterations self \<longrightarrow> \<not> pixels1 < threshold self"
      using l by simp
    from r' b' c' e' l' show ?thesis by blast
  next
    case False
    have "category_loop ops self np bh bw px1 (i + 1) (Some p1) r1 = Inr (px1, i + 1, Some p1, r1)"
      using False by (intro category_loop_stop) simp
    with pass have "category_loop ops self np bh bw pixels i params rng
          = Inr (px1, i + 1 + int 0, Some p1, r1)" by simp
    moreover have "i + 1 + int 0 \<le> iterations self" using more by simp
    moreover have "nth_candidate ops self np bh bw rng 0 = Inr (p1, px1, r1)" using nc by simp
    moreover have "i + 1 + int 0 < iterations self \<longrightarrow> \<not> px1 < threshold self"
      using False by simp
    ultimately show ?thesis by blast
  qed
qed

lemma next_candidate_pixels:
  assumes "next_candidate ops self 6 base_h base_w rng = Inr (params, pixels, rng1)"
  shows "\<exists>c :: nat. pixels = real c / of_int (base_h * base_w)"
proof -
  have size: "0 \<le> fst (randint ops 2 7 rng)"
    using assms by (auto simp: next_candidate_def split: prod.splits if_splits)
  have canvas: "base_h * base_w \<noteq> 0"
    using assms
    by (auto simp: next_candidate_def Let_def split: prod.splits if_splits sum.splits)
  from next_candidate_total [OF size canvas, of self] assms show ?thesis
    by auto
qed

lemma category_loop_params:
  "category_loop ops self np bh bw pixels i params rng = Inr (px, j, Some p, r) \<Longrightarrow>
   params = Some p \<or> (\<exists>r0 px0 r1. next_candidate ops self np bh bw r0 = Inr (p, px0, r1))"
proof (induction ops self np bh bw pixels i params rng rule: category_loop.induct)
  case (1 ops self np bh bw pixels i params rng)
  show ?case
  proof (cases "pixels < threshold self \<and> i < iterations self")
    case False
    with "1.prems" show ?thesis by (simp add: category_loop_stop)
  next
    case True
    show ?thesis
    proof (cases "next_candidate ops self np bh bw rng")
      case (Inl e)
      with True "1.prems" show ?thesis
        by (subst (asm) category_loop.simps) simp
    next
      case (Inr c)
      obtain p1 px1 r1 where c: "c = (p1, px1, r1)" by (cases c)
      have nc: "next_candidate ops self np bh bw rng = Inr (p1, px1, r1)" using Inr c by simp
      from True nc "1.prems"
      have "category_loop ops self np bh bw px1 (i + 1) (Some p1) r1 = Inr (px, j, Some p, r)"
        by (simp add: category_loop_pass)
      from "1.IH" [OF True nc refl refl this] nc show ?thesis
        by auto
    qed
  qed
qed

text \<open>
  Claim C4. With a generator whose \<open>randint\<close> never returns a negative size, a nonempty
  canvas and a positive attempt cap, \<open>_generate_category\<close> returns, without raising, after
  \<open>n + 1\<close> passes, at most as many as the cap: every earlier candidate had a fraction of
  nonzero pixels below the threshold, and the candidate returned is the first whose
  fraction is not below it or, when there is none within the cap, the last one generated.
  On the canvas of 512 by 512 pixels and the threshold 0.2 a fraction never equals the
  threshold, so that not being below it is exceeding it.
\<close>

theorem generate_category_returns:
  assumes "\<forall>r. 0 \<le> fst (randint ops 2 7 r)" and "base_h * base_w \<noteq> 0"
    and "- 1 < threshold self" and "0 < iterations self"
  shows "\<exists>n params pixels rng1.
           generate_category ops self 6 rng base_h base_w = Inr (params, rng1)
           \<and> int (Suc n) \<le> iterations self
           \<and> nth_candidate ops self 6 base_h base_w rng n = Inr (params, pixels, rng1)
           \<and> (\<forall>k<n. \<exists>p px r. nth_candidate ops self 6 base_h base_w rng k = Inr (p, px, r)
                        \<and> px < threshold self)
           \<and> (int (Suc n) < iterations self \<longrightarrow> threshold self \<le> pixels)
           \<and> (base_h * base_w = 512 * 512 \<and> threshold self = 2 / 10
                 \<longrightarrow> pixels \<noteq> threshold self)"
proof -
  have ok: "\<exists>c. next_candidate ops self 6 base_h base_w r = Inr c" for r
    using next_candidate_total [of ops r base_h base_w self] assms(1,2) by blast
  have m: "nat (iterations self - 0) = Suc (nat (iterations self) - 1)"
    using assms(4) by simp
  from category_loop_run [of ops self 6 base_h base_w "- 1" 0 "nat (iterations self) - 1" None rng,
      OF ok _ _ m] assms(3,4)
  obtain n params pixels rng1 where
    r: "category_loop ops self 6 base_h base_w (- 1) 0 None rng
          = Inr (pixels, 0 + 1 + int n, Some params, rng1)"
    and b: "0 + 1 + int n \<le> iterations self"
    and c: "nth_candidate ops self 6 base_h base_w rng n = Inr (params, pixels, rng1)"
    and e: "\<forall>k<n. \<exists>p px r. nth_candidate ops self 6 base_h base_w rng k = Inr (p, px, r)
                        \<and> px < threshold self"
    and l: "0 + 1 + int n < iterations self \<longrightarrow> \<not> pixels < threshold self"
    by auto
  have g: "generate_category ops self 6 rng base_h base_w = Inr (params, rng1)"
    by (simp add: generate_category_def r)
  have b': "int (Suc n) \<le> iterations self" using b by simp
  have l': "int (Suc n) < iterations self \<longrightarrow> threshold self \<le> pixels" using l by auto
  have d: "base_h * base_w = 512 * 512 \<and> threshold self = 2 / 10 \<longrightarrow> pixels \<noteq> threshold self"
  proof (intro impI)
    assume a: "base_h * base_w = 512 * 512 \<and> threshold self = 2 / 10"
    have "\<exists>r0 px0 r1. next_candidate ops self 6 base_h base_w r0 = Inr (params, px0, r1) \<and> px0 = pixels"
      using c
    proof (induction n arbitrary: rng)
      case 0
      then show ?case by auto
    next
      case (Suc n)
      then show ?case by (auto split: sum.splits)
    qed
    then obtain r0 r1 where "next_candidate ops self 6 base_h base_w r0 = Inr (params, pixels, r1)"
      by blast
    from next_candidate_pixels [OF this] obtain cnt :: nat where
      px: "pixels = real cnt / of_int (base_h * base_w)" by blast
    show "pixels \<noteq> threshold self"
    proof
      assume "pixels = threshold self"
      with px a have "real cnt / 262144 = 2 / 10" by simp
      then have "real cnt * 10 = 2 * 262144" by (simp add: field_simps)
      then have "real (cnt * 10) = real 524288" by simp
      then have "cnt * 10 = 524288" by (simp only: of_nat_eq_iff)
      then show False by presburger
    qed
  qed
  from g b' c e l' d show ?thesis by blast
qed

section \<open>The sampler on the scripted generator\<close>

lemma category_loop_exhaust:
  "pixels < threshold self \<Longrightarrow> nat (iterations self - i) = Suc m \<Longrightarrow>
   (\<forall>k\<le>m. \<exists>p px r. nth_candidate ops self np bh bw rng k = Inr (p, px, r)
              \<and> px < threshold self) \<Longrightarrow>
   \<exists>p px r. nth_candidate ops self np bh bw rng m = Inr (p, px, r)
     \<and> category_loop ops self np bh bw pixels i params rng
         = Inr (px, iterations self, Some p, r)"
proof (induction m arbitrary: pixels i params rng)
  case 0
  from 0(3) obtain p1 px1 r1 where nc: "next_candidate ops self np bh bw rng = Inr (p1, px1, r1)"
    by force
  from 0(2) have i: "i < iterations self" and last: "i + 1 = iterations self" by linarith+
  have "category_loop ops self np bh bw pixels i params rng
          = category_loop ops self np bh bw px1 (i + 1) (Some p1) r1"
    using 0(1) i nc by (rule category_loop_pass)
  also have "\<dots> = Inr (px1, i + 1, Some p1, r1)"
    using last by (intro category_loop_stop) simp
  finally show ?case using nc last by simp
next
  case (Suc m)
  from Suc.prems(3) obtain p1 px1 r1 where
    nc: "next_candidate ops self np bh bw rng = Inr (p1, px1, r1)" and low: "px1 < threshold self"
    by force
  from Suc.prems(2) have i: "i < iterations self"
    and more: "nat (iterations self - (i + 1)) = Suc m" by linarith+
  have rest: "\<forall>k\<le>m. \<exists>p px r. nth_candidate ops self np bh bw r1 k = Inr (p, px, r)
              \<and> px < threshold self"
  proof (intro allI impI)
    fix k assume "k \<le> m"
    then have "Suc k \<le> Suc m" by simp
    with Suc.prems(3) have "\<exists>p px r. nth_candidate ops self np bh bw rng (Suc k) = Inr (p, px, r)
              \<and> px < threshold self" by blast
    then show "\<exists>p px r. nth_candidate ops self np bh bw r1 k = Inr (p, px, r) \<and> px < threshold self"
      using nc by simp
  qed
  have pass: "category_loop ops self np bh bw pixels i params rng
          = category_loop ops self np bh bw px1 (i + 1) (Some p1) r1"
    using Suc.prems(1) i nc by (rule category_loop_pass)
  from Suc.IH [OF low more rest, of "Some p1"] pass nc show ?case
    by simp
qed

lemma scripted_uniforms_late:
  "13 \<le> r \<Longrightarrow> draw_uniforms scripted_ops n r = (replicate n 0, r + n)"
  by (induction n arbitrary: r) (simp_all add: scripted_ops_def)

lemma scripted_uniforms_early:
  "r + n \<le> 13 \<Longrightarrow> draw_uniforms scripted_ops n r = (replicate n 1, r + n)"
  by (induction n arbitrary: r) (simp_all add: scripted_ops_def)

lemma six_zeros: "replicate 6 (0::real) = [0, 0, 0, 0, 0, 0]"
  by (simp add: eval_nat_numeral)

lemma six_ones: "replicate 6 (1::real) = [1, 1, 1, 1, 1, 1]"
  by (simp add: eval_nat_numeral)

lemma binary64_zero: "binary64 0 = 0"
  by (simp add: binary64_def)

lemma binary32_zero: "binary32 0 = 0"
  by (simp add: binary32_def)

lemma binary32_one: "binary32 1 = 1"
proof -
  have u: "(2::real) powr (- 23) = 1 / of_int 8388608"
    by (simp add: powr_minus powr_realpow [symmetric] field_simps del: powr_numeral)
  have "round_half_even (1 / (1 / of_int 8388608)) = 8388608"
    using round_half_even_of_int [of 8388608] by simp
  then show ?thesis
    by (simp add: binary32_def Let_def u)
qed

lemma scripted_rows_late:
  "13 \<le> r \<Longrightarrow>
   sample_rows scripted_ops 6 2 [] s r = Inr (zero_category, binary64 (binary64 s), r + 12)"
proof -
  assume r: "13 \<le> r"
  have two: "(2::nat) = Suc (Suc 0)" by simp
  have d1: "draw_uniforms scripted_ops 6 r = ([0, 0, 0, 0, 0, 0], r + 6)"
    using scripted_uniforms_late [OF r, of 6] by (simp only: six_zeros)
  have r6: "13 \<le> r + 6" using r by simp
  have d2: "draw_uniforms scripted_ops 6 (r + 6) = ([0, 0, 0, 0, 0, 0], r + 6 + 6)"
    using scripted_uniforms_late [OF r6, of 6] by (simp only: six_zeros)
  show ?thesis
    unfolding two
    by (simp add: d1 d2 zero_category_def binary64_zero binary32_zero Let_def
        del: draw_uniforms.simps)
qed

lemma scripted_rows_first:
  "sample_rows scripted_ops 6 2 [] s (Suc 0) = Inr (unit_category, binary64 (binary64 s), 13)"
proof -
  have two: "(2::nat) = Suc (Suc 0)" by simp
  have d1: "draw_uniforms scripted_ops 6 (Suc 0) = ([1, 1, 1, 1, 1, 1], 7)"
    using scripted_uniforms_early [of "Suc 0" 6] by (simp add: six_ones)
  have d2: "draw_uniforms scripted_ops 6 7 = ([1, 1, 1, 1, 1, 1], 13)"
    using scripted_uniforms_early [of 7 6] by (simp add: six_ones)
  show ?thesis
    unfolding two
    by (simp add: d1 d2 unit_category_def binary64_zero binary32_zero binary32_one Let_def
        del: draw_uniforms.simps)
qed

lemma scripted_image_zero:
  "generate_image scripted_ops r zero_category n h w dp weight = (0, Suc r)"
  by (simp add: generate_image_def scripted_ops_def zero_category_def)

lemma scripted_image_unit:
  "generate_image scripted_ops r unit_category n h w dp weight = (1000, Suc r)"
  by (simp add: generate_image_def scripted_ops_def unit_category_def)

lemma scripted_candidate_late:
  assumes "13 \<le> r"
  shows "next_candidate scripted_ops self 6 512 512 r = Inr (zero_category, 0, r + 14)"
proof -
  have ri: "randint scripted_ops 2 7 r = (2, Suc r)" by (simp add: scripted_ops_def)
  have r1: "13 \<le> Suc r" using assms by simp
  have norm: "map (\<lambda>(cs, prob). (cs, binary32 (prob / t))) zero_category = zero_category" for t
    by (simp add: zero_category_def binary32_zero)
  have cz: "count_nonzero scripted_ops 0 = 0" by (simp add: scripted_ops_def)
  show ?thesis
    unfolding next_candidate_def
    by (simp add: ri scripted_rows_late [OF r1] norm scripted_image_zero cz Let_def
        del: sample_rows.simps)
qed

lemma scripted_candidate_first:
  "next_candidate scripted_ops self 6 512 512 0 = Inr (unit_category, 1000 / 262144, 14)"
proof -
  have ri: "randint scripted_ops 2 7 0 = (2, Suc 0)" by (simp add: scripted_ops_def)
  have norm: "map (\<lambda>(cs, prob). (cs, binary32 (prob / t))) unit_category = unit_category" for t
    by (simp add: unit_category_def binary32_zero)
  have cz: "count_nonzero scripted_ops 1000 = 1000" by (simp add: scripted_ops_def)
  show ?thesis
    unfolding next_candidate_def
    by (simp add: ri scripted_rows_first norm scripted_image_unit cz Let_def
        del: sample_rows.simps)
qed

lemma scripted_nth_late:
  "13 \<le> r \<Longrightarrow>
   nth_candidate scripted_ops self 6 512 512 r k = Inr (zero_category, 0, r + 14 * Suc k)"
proof (induction k arbitrary: r)
  case 0
  then show ?case by (simp add: scripted_candidate_late)
next
  case (Suc k)
  have "13 \<le> r + 14" using Suc.prems by simp
  from Suc.IH [OF this] show ?case
    using Suc.prems by (simp add: scripted_candidate_late)
qed

lemma scripted_nth:
  "nth_candidate scripted_ops self 6 512 512 0 (Suc k) = Inr (zero_category, 0, 14 * Suc (Suc k))"
  using scripted_nth_late [of 14 self k] by (simp add: scripted_candidate_first)

lemma scripted_low:
  "\<exists>p px r. nth_candidate scripted_ops demo_generator 6 512 512 0 k = Inr (p, px, r)
               \<and> px < threshold demo_generator"
proof (cases k)
  case 0
  have "nth_candidate scripted_ops demo_generator 6 512 512 0 0
          = Inr (unit_category, 1000 / 262144, 14)"
    by (simp add: scripted_candidate_first)
  moreover have "(1000 / 262144 :: real) < threshold demo_generator"
    by (simp add: demo_generator_def)
  ultimately show ?thesis unfolding 0 by blast
next
  case (Suc k')
  have "nth_candidate scripted_ops demo_generator 6 512 512 0 (Suc k')
          = Inr (zero_category, 0, 14 * Suc (Suc k'))"
    by (rule scripted_nth)
  moreover have "(0 :: real) < threshold demo_generator"
    by (simp add: demo_generator_def)
  ultimately show ?thesis unfolding Suc by blast
qed

lemma scripted_last:
  "nth_candidate scripted_ops demo_generator 6 512 512 0 199999 = Inr (zero_category, 0, 2800000)"
proof -
  have "nth_candidate scripted_ops demo_generator 6 512 512 0 (Suc 199998)
          = Inr (zero_category, 0, 14 * Suc (Suc 199998))"
    by (rule scripted_nth)
  then show ?thesis by simp
qed


lemma scripted_generate_category:
  "generate_category scripted_ops demo_generator 6 0 512 512 = Inr (zero_category, 2800000)"
proof -
  have low: "\<forall>k\<le>199999. \<exists>p px r.
               nth_candidate scripted_ops demo_generator 6 512 512 0 k = Inr (p, px, r)
               \<and> px < threshold demo_generator"
    using scripted_low by blast
  have m: "nat (iterations demo_generator - 0) = Suc 199999" by (simp add: demo_generator_def)
  have "(- 1 :: real) < threshold demo_generator" by (simp add: demo_generator_def)
  from category_loop_exhaust [OF this m low, of None]
  obtain p px r where n: "nth_candidate scripted_ops demo_generator 6 512 512 0 199999 = Inr (p, px, r)"
    and l: "category_loop scripted_ops demo_generator 6 512 512 (- 1) 0 None 0
              = Inr (px, iterations demo_generator, Some p, r)"
    by blast
  from n have "p = zero_category" "r = 2800000" by (simp_all add: scripted_last)
  with l show ?thesis by (simp add: generate_category_def)
qed

theorem generate_category_returns_witness:
  "\<exists>params rng1. generate_category scripted_ops demo_generator 6 0 512 512 = Inr (params, rng1)"
proof -
  have h1: "\<forall>r. 0 \<le> fst (randint scripted_ops 2 7 r)" by (simp add: scripted_ops_def)
  have h2: "(512 :: int) * 512 \<noteq> 0" by simp
  have h3: "- 1 < threshold demo_generator" by (simp add: demo_generator_def)
  have h4: "0 < iterations demo_generator" by (simp add: demo_generator_def)
  from generate_category_returns [OF h1 h2 h3 h4, of 0] show ?thesis by blast
qed

text \<open>
  Claim C7, as the code has it. When every candidate up to the cap stays below the
  threshold, \<open>_generate_category\<close> returns the candidate of the last pass and the generator
  as that pass left it; the call returns nothing else and assigns no attribute, so no
  count of such runs is kept.
\<close>

theorem exhausted_cap_returns_last:
  assumes "- 1 < threshold self" and "0 < iterations self"
    and "\<forall>k < nat (iterations self).
           \<exists>p px r. nth_candidate ops self num_params base_h base_w rng k = Inr (p, px, r)
             \<and> px < threshold self"
  shows "\<exists>params pixels rng1.
           nth_candidate ops self num_params base_h base_w rng (nat (iterations self) - 1)
             = Inr (params, pixels, rng1)
           \<and> generate_category ops self num_params rng base_h base_w = Inr (params, rng1)"
proof -
  have m: "nat (iterations self - 0) = Suc (nat (iterations self) - 1)"
    using assms(2) by simp
  have low: "\<forall>k \<le> nat (iterations self) - 1.
           \<exists>p px r. nth_candidate ops self num_params base_h base_w rng k = Inr (p, px, r)
             \<and> px < threshold self"
  proof (intro allI impI)
    fix k assume "k \<le> nat (iterations self) - 1"
    with assms(2) have "k < nat (iterations self)" by linarith
    with assms(3) show "\<exists>p px r. nth_candidate ops self num_params base_h base_w rng k = Inr (p, px, r)
             \<and> px < threshold self" by blast
  qed
  from category_loop_exhaust [OF assms(1) m low, of None]
  obtain p px r where
    "nth_candidate ops self num_params base_h base_w rng (nat (iterations self) - 1) = Inr (p, px, r)"
    "category_loop ops self num_params base_h base_w (- 1) 0 None rng
       = Inr (px, iterations self, Some p, r)"
    by blast
  then show ?thesis by (simp add: generate_category_def)
qed

theorem exhausted_cap_returns_last_witness:
  "nth_candidate scripted_ops demo_generator 6 512 512 0 199999 = Inr (zero_category, 0, 2800000)
   \<and> generate_category scripted_ops demo_generator 6 0 512 512 = Inr (zero_category, 2800000)"
proof -
  have h1: "- 1 < threshold demo_generator" by (simp add: demo_generator_def)
  have h2: "0 < iterations demo_generator" by (simp add: demo_generator_def)
  have h3: "\<forall>k < nat (iterations demo_generator).
           \<exists>p px r. nth_candidate scripted_ops demo_generator 6 512 512 0 k = Inr (p, px, r)
             \<and> px < threshold demo_generator"
    using scripted_low by blast
  have c: "nat (iterations demo_generator) - 1 = 199999" by (simp add: demo_generator_def)
  from exhausted_cap_returns_last [OF h1 h2 h3]
  obtain params pixels rng1 where
    n: "nth_candidate scripted_ops demo_generator 6 512 512 0 (nat (iterations demo_generator) - 1)
          = Inr (params, pixels, rng1)"
    and g: "generate_category scripted_ops demo_generator 6 0 512 512 = Inr (params, rng1)"
    by blast
  from n have "nth_candidate scripted_ops demo_generator 6 512 512 0 199999
                 = Inr (params, pixels, rng1)"
    by (simp only: c)
  then have "params = zero_category" "rng1 = 2800000"
    by (simp_all add: scripted_last)
  with g show ?thesis by (simp add: scripted_last)
qed

text \<open>
  Against claim C7 as stated: with the scripted generator the first candidate lights 1000
  pixels and all later ones none; the candidate returned at the cap is the last one, with
  no pixel lit, not the first.
\<close>

theorem last_candidate_not_best:
  "generate_category scripted_ops demo_generator 6 0 512 512 = Inr (zero_category, 2800000)
   \<and> nth_candidate scripted_ops demo_generator 6 512 512 0 199999
       = Inr (zero_category, 0, 2800000)
   \<and> nth_candidate scripted_ops demo_generator 6 512 512 0 0
       = Inr (unit_category, 1000 / 262144, 14)
   \<and> (0 :: real) < 1000 / 262144"
  by (simp add: scripted_generate_category scripted_last scripted_candidate_first)

section \<open>Facts about the batch loop\<close>

lemma length_image_batch_loop:
  "length (fst (image_batch_loop ifs post self bg net jobs)) = length jobs"
proof (induction jobs arbitrary: net)
  case Nil
  show ?case by simp
next
  case (Cons job jobs)
  obtain i param w where job: "job = (i, param, w)" by (cases job)
  obtain img rng1 where g: "generate_image ifs (Random ifs (int i)) param (iterations self)
             (height self) (width self) False (Some w) = (img, rng1)"
    by (cases "generate_image ifs (Random ifs (int i)) param (iterations self)
             (height self) (width self) False (Some w)")
  obtain color_image net1 where c: "colorize post img net = (color_image, net1)"
    by (cases "colorize post img net")
  obtain saved net2 where r: "image_batch_loop ifs post self bg net1 jobs = (saved, net2)"
    by (cases "image_batch_loop ifs post self bg net1 jobs")
  from Cons [of net1] show ?case
    by (simp add: job g c r)
qed

lemma image_batch_loop_nth:
  "k < length jobs \<Longrightarrow>
   \<exists>net1. fst (image_batch_loop ifs post self bg net jobs) ! k
     = (osp_join (output_dir self) (file_name (fst (jobs ! k))),
        fst (generate_image ifs (Random ifs (int (fst (jobs ! k)))) (fst (snd (jobs ! k)))
               (iterations self) (height self) (width self) False (Some (snd (snd (jobs ! k))))),
        augment post (Random ifs (int (fst (jobs ! k))))
          (fst (colorize post
                  (fst (generate_image ifs (Random ifs (int (fst (jobs ! k))))
                          (fst (snd (jobs ! k))) (iterations self) (height self) (width self)
                          False (Some (snd (snd (jobs ! k))))))
                  net1))
          bg)"
proof (induction jobs arbitrary: net k)
  case Nil
  then show ?case by simp
next
  case (Cons job jobs)
  obtain i param w where job: "job = (i, param, w)" by (cases job)
  obtain img rng1 where g: "generate_image ifs (Random ifs (int i)) param (iterations self)
             (height self) (width self) False (Some w) = (img, rng1)"
    by (cases "generate_image ifs (Random ifs (int i)) param (iterations self)
             (height self) (width self) False (Some w)")
  obtain color_image net1 where c: "colorize post img net = (color_image, net1)"
    by (cases "colorize post img net")
  obtain saved net2 where r: "image_batch_loop ifs post self bg net1 jobs = (saved, net2)"
    by (cases "image_batch_loop ifs post self bg net1 jobs")
  show ?case
  proof (cases k)
    case 0
    have "fst (image_batch_loop ifs post self bg net (job # jobs)) ! 0
            = (osp_join (output_dir self) (file_name i), img,
               augment post (Random ifs (int i)) (fst (colorize post img net)) bg)"
      by (simp add: job g c r)
    then show ?thesis unfolding 0 using g by (auto simp: job)
  next
    case (Suc k')
    with Cons.prems have "k' < length jobs" by simp
    from Cons.IH [OF this, of net1] r show ?thesis
      by (simp add: Suc job g c)
  qed
qed

lemma rasters_of_loop:
  "map (\<lambda>(path, img, aug_image). (path, img)) (fst (image_batch_loop ifs post self bg net jobs))
     = map (\<lambda>(i, param, w).
              (osp_join (output_dir self) (file_name i),
               fst (generate_image ifs (Random ifs (int i)) param (iterations self)
                      (height self) (width self) False (Some w)))) jobs"
proof (induction jobs arbitrary: net)
  case Nil
  show ?case by simp
next
  case (Cons job jobs)
  obtain i param w where job: "job = (i, param, w)" by (cases job)
  obtain img rng1 where g: "generate_image ifs (Random ifs (int i)) param (iterations self)
             (height self) (width self) False (Some w) = (img, rng1)"
    by (cases "generate_image ifs (Random ifs (int i)) param (iterations self)
             (height self) (width self) False (Some w)")
  obtain color_image net1 where c: "colorize post img net = (color_image, net1)"
    by (cases "colorize post img net")
  obtain saved net2 where r: "image_batch_loop ifs post self bg net1 jobs = (saved, net2)"
    by (cases "image_batch_loop ifs post self bg net1 jobs")
  from Cons [of net1] show ?case
    by (simp add: job g c r)
qed

lemma rasters_of_generate_all:
  "map (\<lambda>(path, img, aug_image). (path, img)) (generate_all ifs post self bg net batches)
     = map (\<lambda>(i, param, w).
              (osp_join (output_dir self) (file_name i),
               fst (generate_image ifs (Random ifs (int i)) param (iterations self)
                      (height self) (width self) False (Some w)))) (all_jobs batches)"
  by (induction batches)
    (simp_all add: generate_all_def generate_image_batch_def all_jobs_def rasters_of_loop)

lemma generate_image_rng_irrelevant:
  "fst (generate_image (ifs\<lparr>ifs_rng := f\<rparr>) rng params n h w dp weight)
     = fst (generate_image ifs rng params n h w dp weight)"
  by (simp add: generate_image_def Let_def)

lemma image_batch_loop_rng_irrelevant:
  "image_batch_loop (ifs\<lparr>ifs_rng := f\<rparr>) post self bg net jobs
     = image_batch_loop ifs post self bg net jobs"
proof (induction jobs arbitrary: net)
  case Nil
  show ?case by simp
next
  case (Cons job jobs)
  obtain i param w where job: "job = (i, param, w)" by (cases job)
  obtain img rng1 where g: "generate_image ifs (Random ifs (int i)) param (iterations self)
             (height self) (width self) False (Some w) = (img, rng1)"
    by (cases "generate_image ifs (Random ifs (int i)) param (iterations self)
             (height self) (width self) False (Some w)")
  obtain img' rng1' where g': "generate_image (ifs\<lparr>ifs_rng := f\<rparr>) (Random ifs (int i)) param
             (iterations self) (height self) (width self) False (Some w) = (img', rng1')"
    by (cases "generate_image (ifs\<lparr>ifs_rng := f\<rparr>) (Random ifs (int i)) param
             (iterations self) (height self) (width self) False (Some w)")
  have same: "img' = img"
    by (metis g g' fst_conv generate_image_rng_irrelevant)
  obtain color_image net1 where c: "colorize post img net = (color_image, net1)"
    by (cases "colorize post img net")
  from Cons [of net1] show ?case
    by (simp add: job g g' same c)
qed

text \<open>
  Claim C3. The raster synthesised for a job is the rendering from the generator
  \<open>Random(i)\<close> seeded with the job's index, of the job's parameters and weight vector: two
  runs of the batch loop give the same raster for the same job, whatever the batches the job
  is in, its position in them, the network and the post-processing; and the rasters of a
  whole run are those of its job list, however the list is split into batches. The renderer
  is a function of the generator and its arguments.
\<close>

theorem raster_determined_by_job:
  assumes "k1 < length jobs1" and "k2 < length jobs2" and "jobs1 ! k1 = jobs2 ! k2"
  shows "fst (snd (fst (image_batch_loop ifs post1 self bg1 net1 jobs1) ! k1))
           = fst (snd (fst (image_batch_loop ifs post2 self bg2 net2 jobs2) ! k2))
         \<and> fst (snd (fst (image_batch_loop ifs post1 self bg1 net1 jobs1) ! k1))
           = fst (generate_image ifs (Random ifs (int (fst (jobs1 ! k1))))
                    (fst (snd (jobs1 ! k1))) (iterations self) (height self) (width self)
                    False (Some (snd (snd (jobs1 ! k1)))))
         \<and> map (\<lambda>(path, img, aug_image). (path, img))
               (generate_all ifs post1 self bg1 net1 batches)
           = map (\<lambda>(i, param, w).
                    (osp_join (output_dir self) (file_name i),
                     fst (generate_image ifs (Random ifs (int i)) param (iterations self)
                            (height self) (width self) False (Some w))))
               (all_jobs batches)"
proof -
  from image_batch_loop_nth [OF assms(1), of ifs post1 self bg1 net1]
  have a: "fst (snd (fst (image_batch_loop ifs post1 self bg1 net1 jobs1) ! k1))
           = fst (generate_image ifs (Random ifs (int (fst (jobs1 ! k1))))
                    (fst (snd (jobs1 ! k1))) (iterations self) (height self) (width self)
                    False (Some (snd (snd (jobs1 ! k1)))))"
    by auto
  from image_batch_loop_nth [OF assms(2), of ifs post2 self bg2 net2]
  have b: "fst (snd (fst (image_batch_loop ifs post2 self bg2 net2 jobs2) ! k2))
           = fst (generate_image ifs (Random ifs (int (fst (jobs2 ! k2))))
                    (fst (snd (jobs2 ! k2))) (iterations self) (height self) (width self)
                    False (Some (snd (snd (jobs2 ! k2)))))"
    by auto
  from a b assms(3) rasters_of_generate_all [of ifs post1 self bg1 net1 batches]
  show ?thesis by simp
qed

lemma decimal_digit: "n < 10 \<Longrightarrow> decimal n = [''0123456789'' ! n]"
  by (subst decimal.simps) simp

lemma file_name_0: "file_name 0 = ''000000.png''"
  by (simp add: file_name_def decimal_digit eval_nat_numeral)

lemma scripted_Random: "Random scripted_ops i = 0"
  by (simp add: scripted_ops_def)

theorem raster_determined_by_job_witness:
  "fst (snd (fst (image_batch_loop scripted_ops scripted_post demo_generator () ()
                    [(0, zero_category, [1]), (1, unit_category, [2])]) ! 1))
     = fst (snd (fst (image_batch_loop scripted_ops scripted_post demo_generator () ()
                    [(1, unit_category, [2])]) ! 0))"
  using raster_determined_by_job [of 1 "[(0, zero_category, [1]), (1, unit_category, [2])]"
      0 "[(1, unit_category, [2])]" scripted_ops scripted_post demo_generator "()" "()"
      scripted_post "()" "()" "[]"]
  by simp

text \<open>
  Claim C8, as the code has it. The generator handed to \<open>augment\<close> for the job of index
  \<open>i\<close> is a new \<open>Random(i)\<close>, seeded like the one of the synthesis and started afresh: the
  state in which the synthesis leaves its own generator has no influence on what the loop
  produces.
\<close>

theorem background_from_fresh_generator:
  "(\<forall>f. image_batch_loop (ifs\<lparr>ifs_rng := f\<rparr>) post self bg net jobs
          = image_batch_loop ifs post self bg net jobs)
   \<and> (\<forall>k < length jobs.
         \<exists>color_image.
           snd (snd (fst (image_batch_loop ifs post self bg net jobs) ! k))
             = augment post (Random ifs (int (fst (jobs ! k)))) color_image bg)"
proof (intro conjI allI impI)
  fix f
  show "image_batch_loop (ifs\<lparr>ifs_rng := f\<rparr>) post self bg net jobs
          = image_batch_loop ifs post self bg net jobs"
    by (rule image_batch_loop_rng_irrelevant)
next
  fix k assume "k < length jobs"
  from image_batch_loop_nth [OF this, of ifs post self bg net]
  show "\<exists>color_image.
           snd (snd (fst (image_batch_loop ifs post self bg net jobs) ! k))
             = augment post (Random ifs (int (fst (jobs ! k)))) color_image bg"
    by auto
qed

lemma scripted_batch:
  "image_batch_loop scripted_ops scripted_post demo_generator () () [(0, zero_category, [1])]
     = ([(''out/000000.png'', 0, 0)], ())"
  by (simp add: scripted_image_zero scripted_Random scripted_post_def file_name_0
      osp_join_def demo_generator_def)

theorem background_from_fresh_generator_witness:
  "image_batch_loop (scripted_ops\<lparr>ifs_rng := (\<lambda>s. 7)\<rparr>) scripted_post demo_generator () ()
       [(0, zero_category, [1])]
     = ([(''out/000000.png'', 0, 0)], ())
   \<and> (\<exists>color_image.
         snd (snd (fst (image_batch_loop scripted_ops scripted_post demo_generator () ()
                          [(0, zero_category, [1])]) ! 0))
           = augment scripted_post (Random scripted_ops 0) color_image ())"
proof -
  from background_from_fresh_generator [of scripted_ops scripted_post demo_generator "()" "()"
      "[(0, zero_category, [1])]"]
  have a: "image_batch_loop (scripted_ops\<lparr>ifs_rng := (\<lambda>s. 7)\<rparr>) scripted_post demo_generator () ()
          [(0, zero_category, [1])]
        = image_batch_loop scripted_ops scripted_post demo_generator () ()
          [(0, zero_category, [1])]"
    and b: "\<forall>k < length [(0 :: nat, zero_category, [1 :: real])].
         \<exists>color_image.
           snd (snd (fst (image_batch_loop scripted_ops scripted_post demo_generator () ()
                            [(0, zero_category, [1])]) ! k))
             = augment scripted_post
                 (Random scripted_ops (int (fst ([(0 :: nat, zero_category, [1 :: real])] ! k))))
                 color_image ()"
    by blast+
  from b have "\<exists>color_image.
         snd (snd (fst (image_batch_loop scripted_ops scripted_post demo_generator () ()
                          [(0, zero_category, [1])]) ! 0))
           = augment scripted_post (Random scripted_ops 0) color_image ()"
    by simp
  with a show ?thesis by (simp only: scripted_batch simp_thms)
qed

text \<open>
  Against claim C8 as stated: the scripted renderer spends one draw, the scripted
  \<open>augment\<close> shows the state of the generator it is given. The loop of the code hands it
  the state 0 of a new generator; a loop that continued the stream of the synthesis would
  hand it the state 1.
\<close>

theorem background_generator_restarts:
  "fst (image_batch_loop scripted_ops scripted_post demo_generator () ()
          [(0, zero_category, [1])]) = [(''out/000000.png'', 0, 0)]
   \<and> fst (image_batch_loop_continuing scripted_ops scripted_post demo_generator () ()
          [(0, zero_category, [1])]) = [(''out/000000.png'', 0, 1)]"
  by (simp add: scripted_image_zero scripted_Random scripted_post_def file_name_0
      osp_join_def demo_generator_def)

section \<open>Facts about \<open>Converter.patch\<close>\<close>

lemma mkdtemp_cases:
  "(\<exists>tmpdir. fs tmpdir = None
       \<and> mkdtemp names dir prefix suffix fs = (Inr tmpdir, fs(tmpdir \<mapsto> Directory 448 [])))
   \<or> mkdtemp names dir prefix suffix fs = (Inl FileExistsError, fs)"
proof (cases "find (\<lambda>name. fs (osp_join dir (prefix @ name @ suffix)) = None) names")
  case None
  then show ?thesis by (simp add: mkdtemp_def)
next
  case (Some name)
  then have "fs (osp_join dir (prefix @ name @ suffix)) = None"
    by (auto simp: find_Some_iff)
  with Some show ?thesis by (simp add: mkdtemp_def Let_def)
qed

lemma copymode_other: "q \<noteq> dst \<Longrightarrow> copymode src dst fs q = fs q"
  by (simp add: copymode_def split: option.splits node.splits)

text \<open>
  Claim C10. Let \<open>save_dir\<close> be an existing directory and let the conversion write only
  below the directory it is given. When \<open>patch\<close> ends with an exception, raised by the
  conversion or by the creation of the temporary directory, the file system is what it was
  before the call, \<open>save_dir\<close> and its contents included. When it returns, the conversion
  has succeeded in a directory that did not exist before, and only then \<open>save_dir\<close> has
  been removed and replaced by that directory.
\<close>

theorem patch_replaces_after_success_only:
  assumes "isdir save_dir fs"
    and "\<forall>ds p s q. q \<noteq> p \<longrightarrow> snd (convert ds p s) q = s q"
  shows "(\<forall>e. fst (patch convert names dataset patch1 save_dir fs) = Inl e
            \<longrightarrow> snd (patch convert names dataset patch1 save_dir fs) = fs)
         \<and> (\<forall>r. fst (patch convert names dataset patch1 save_dir fs) = Inr r
            \<longrightarrow> (\<exists>tmpdir. fs tmpdir = None
                   \<and> fst (convert dataset tmpdir
                            (copymode save_dir tmpdir (fs(tmpdir \<mapsto> Directory 448 [])))) = Inr r
                   \<and> snd (patch convert names dataset patch1 save_dir fs)
                       = fs(save_dir :=
                           snd (convert dataset tmpdir
                                  (copymode save_dir tmpdir (fs(tmpdir \<mapsto> Directory 448 []))))
                             tmpdir)))"
proof -
  from mkdtemp_cases [of fs names "dirname save_dir" "basename save_dir" "''.tmp''"]
  show ?thesis
  proof
    assume "mkdtemp names (dirname save_dir) (basename save_dir) ''.tmp'' fs
              = (Inl FileExistsError, fs)"
    with assms(1) have "patch convert names dataset patch1 save_dir fs = (Inl FileExistsError, fs)"
      by (simp add: patch_def)
    then show ?thesis by simp
  next
    assume "\<exists>tmpdir. fs tmpdir = None
       \<and> mkdtemp names (dirname save_dir) (basename save_dir) ''.tmp'' fs
           = (Inr tmpdir, fs(tmpdir \<mapsto> Directory 448 []))"
    then obtain tmpdir where fresh: "fs tmpdir = None"
      and mk: "mkdtemp names (dirname save_dir) (basename save_dir) ''.tmp'' fs
           = (Inr tmpdir, fs(tmpdir \<mapsto> Directory 448 []))"
      by blast
    let ?fs2 = "copymode save_dir tmpdir (fs(tmpdir \<mapsto> Directory 448 []))"
    obtain res fs3 where cv: "convert dataset tmpdir ?fs2 = (res, fs3)"
      by (cases "convert dataset tmpdir ?fs2")
    have ne: "tmpdir \<noteq> save_dir"
      using assms(1) fresh by (auto simp: isdir_def)
    have other: "fs3 q = fs q" if "q \<noteq> tmpdir" for q
    proof -
      from assms(2) that have "snd (convert dataset tmpdir ?fs2) q = ?fs2 q" by blast
      then have "fs3 q = ?fs2 q" by (simp add: cv)
      also have "\<dots> = (fs(tmpdir \<mapsto> Directory 448 [])) q"
        using that by (rule copymode_other)
      also have "\<dots> = fs q" using that by simp
      finally show ?thesis .
    qed
    show ?thesis
    proof (cases res)
      case (Inl e)
      have "patch convert names dataset patch1 save_dir fs = (Inl e, rmtree tmpdir fs3)"
        using assms(1) by (simp add: patch_def mk cv Inl)
      moreover have "rmtree tmpdir fs3 = fs"
      proof
        fix q show "rmtree tmpdir fs3 q = fs q"
          using other [of q] fresh by (cases "q = tmpdir") (simp_all add: rmtree_def)
      qed
      ultimately show ?thesis by simp
    next
      case (Inr r)
      have p: "patch convert names dataset patch1 save_dir fs
                 = (Inr r, os_replace tmpdir save_dir (rmtree save_dir fs3))"
        using assms(1) by (simp add: patch_def mk cv Inr Let_def)
      have "os_replace tmpdir save_dir (rmtree save_dir fs3) = fs(save_dir := fs3 tmpdir)"
      proof
        fix q show "os_replace tmpdir save_dir (rmtree save_dir fs3) q = (fs(save_dir := fs3 tmpdir)) q"
          using other [of q] fresh ne
          by (cases "q = tmpdir"; cases "q = save_dir") (simp_all add: rmtree_def os_replace_def)
      qed
      with p fresh cv Inr show ?thesis
        by (intro conjI allI impI) (simp, simp, rule exI [of _ tmpdir], simp)
    qed
  qed
qed

lemma demo_convert_frame:
  "\<forall>ds p s q. q \<noteq> p \<longrightarrow> snd (demo_convert ds p s) q = s q"
  by (simp add: demo_convert_def Let_def)

lemma demo_paths_split: "dirname ''data/out'' = ''data''" "basename ''data/out'' = ''out''"
  by (simp_all add: dirname_def basename_def Let_def)

lemma demo_mkdtemp:
  "mkdtemp [''x7f3k2''] ''data'' ''out'' ''.tmp'' demo_fs
     = (Inr ''data/outx7f3k2.tmp'', demo_fs(''data/outx7f3k2.tmp'' \<mapsto> Directory 448 []))"
  by (simp add: mkdtemp_def osp_join_def demo_fs_def Let_def)

lemma demo_patch_fails:
  "fst (patch demo_convert [''x7f3k2''] ''bad'' () ''data/out'' demo_fs) = Inl ExportError"
proof -
  have d: "isdir ''data/out'' demo_fs" by (simp add: isdir_def demo_fs_def)
  show ?thesis
    by (simp add: patch_def d demo_paths_split demo_mkdtemp demo_convert_def Let_def
        split: prod.splits)
qed

lemma demo_patch_succeeds:
  "fst (patch demo_convert [''x7f3k2''] ''good'' () ''data/out'' demo_fs) = Inr 2"
proof -
  have d: "isdir ''data/out'' demo_fs" by (simp add: isdir_def demo_fs_def)
  show ?thesis
    by (simp add: patch_def d demo_paths_split demo_mkdtemp demo_convert_def Let_def
        split: prod.splits)
qed

theorem patch_replaces_after_success_only_witness:
  "fst (patch demo_convert [''x7f3k2''] ''bad'' () ''data/out'' demo_fs) = Inl ExportError
   \<and> snd (patch demo_convert [''x7f3k2''] ''bad'' () ''data/out'' demo_fs) = demo_fs
   \<and> (\<exists>tmpdir. demo_fs tmpdir = None
         \<and> snd (patch demo_convert [''x7f3k2''] ''good'' () ''data/out'' demo_fs)
             = demo_fs(''data/out'' :=
                 snd (demo_convert ''good'' tmpdir
                        (copymode ''data/out'' tmpdir (demo_fs(tmpdir \<mapsto> Directory 448 []))))
                   tmpdir))"
proof -
  have d: "isdir ''data/out'' demo_fs" by (simp add: isdir_def demo_fs_def)
  from patch_replaces_after_success_only [OF d demo_convert_frame,
      of "[''x7f3k2'']" "''bad''" "()"] demo_patch_fails
  have bad: "snd (patch demo_convert [''x7f3k2''] ''bad'' () ''data/out'' demo_fs) = demo_fs"
    by blast
  from patch_replaces_after_success_only [OF d demo_convert_frame,
      of "[''x7f3k2'']" "''good''" "()"] demo_patch_succeeds
  have good: "\<exists>tmpdir. demo_fs tmpdir = None
         \<and> snd (patch demo_convert [''x7f3k2''] ''good'' () ''data/out'' demo_fs)
             = demo_fs(''data/out'' :=
                 snd (demo_convert ''good'' tmpdir
                        (copymode ''data/out'' tmpdir (demo_fs(tmpdir \<mapsto> Directory 448 []))))
                   tmpdir)"
    by blast
  from demo_patch_fails bad good show ?thesis by blast
qed

section \<open>The planner for counts up to \<open>2^26\<close>\<close>

lemma round_half_even_ge: "of_int j \<le> y \<Longrightarrow> j \<le> round_half_even y"
proof -
  assume "of_int j \<le> y"
  then have "j \<le> \<lfloor>y\<rfloor>" by (simp add: le_floor_iff)
  moreover have "\<lfloor>y\<rfloor> \<le> round_half_even y"
    by (simp add: round_half_even_def Let_def)
  ultimately show ?thesis by linarith
qed

lemma round_half_even_le: "y \<le> of_int j \<Longrightarrow> round_half_even y \<le> j"
proof (cases "y = of_int \<lfloor>y\<rfloor>")
  case True
  assume "y \<le> of_int j"
  then have "\<lfloor>y\<rfloor> \<le> j" by (simp add: floor_le_iff)
  moreover have "round_half_even y = \<lfloor>y\<rfloor>"
    using True by (simp add: round_half_even_def Let_def)
  ultimately show ?thesis by simp
next
  case False
  assume le: "y \<le> of_int j"
  have "of_int \<lfloor>y\<rfloor> < y" using False by (smt (verit) of_int_floor_le)
  with le have "of_int \<lfloor>y\<rfloor> < (of_int j :: real)" by linarith
  then have "\<lfloor>y\<rfloor> < j" by (simp only: of_int_less_iff)
  moreover have "round_half_even y \<le> \<lfloor>y\<rfloor> + 1"
    by (simp add: round_half_even_def Let_def)
  ultimately show ?thesis by linarith
qed

lemma multiple_of_ulp:
  assumes "0 < m" "m < 2 ^ 53" "2 powr of_int E \<le> (of_int m :: real) * 2 powr of_int e"
  shows "\<exists>j. (of_int m :: real) * 2 powr of_int e / 2 powr (of_int E - 52) = of_int j"
proof -
  have "(of_int m :: real) < of_int (2 ^ 53)" using assms(2) by (simp only: of_int_less_iff)
  then have "(of_int m :: real) * 2 powr of_int e < 2 ^ 53 * 2 powr of_int e" by simp
  also have "\<dots> = 2 powr (53 + of_int e)" by (simp add: powr_add)
  finally have "2 powr of_int E < (2::real) powr (53 + of_int e)" using assms(3) by linarith
  then have "of_int E < (53::real) + of_int e" by simp
  then have le: "E - 52 \<le> e" by linarith
  define k where "k = e - (E - 52)"
  have k: "0 \<le> k" using le by (simp add: k_def)
  have "(of_int m :: real) * 2 powr of_int e / 2 powr (of_int E - 52)
          = of_int m * 2 powr (of_int e - (of_int E - 52))"
    by (simp add: powr_diff)
  also have "of_int e - (of_int E - 52) = (of_int k :: real)" by (simp add: k_def)
  also have "of_int m * 2 powr of_int k = (of_int (m * 2 ^ nat k) :: real)"
    using k by (simp add: powr_int_nonneg)
  finally show ?thesis by blast
qed

lemma binary64_bounds:
  assumes x: "0 < x" and m: "0 < m" "m < 2 ^ 53"
  shows "(of_int m * 2 powr of_int e \<le> x \<longrightarrow> of_int m * 2 powr of_int e \<le> binary64 x)
       \<and> (x \<le> of_int m * 2 powr of_int e \<longrightarrow> binary64 x \<le> of_int m * 2 powr of_int e)"
proof -
  let ?r = "of_int m * 2 powr of_int e :: real"
  let ?E = "\<lfloor>log 2 x\<rfloor>"
  let ?u = "2 powr (of_int ?E - 52) :: real"
  have upos: "0 < ?u" by simp
  from binade_exists [OF x] have lo: "2 powr of_int ?E \<le> x" by simp
  have b: "binary64 x = of_int (round_half_even (x / ?u)) * ?u"
    using x by (simp add: binary64_def Let_def)
  have pw: "2 powr of_int ?E = 2 ^ 52 * ?u"
    by (simp add: powr_diff)
  have lower: "?r \<le> binary64 x" if rx: "?r \<le> x"
  proof (cases "2 powr of_int ?E \<le> ?r")
    case True
    from multiple_of_ulp [OF m True] obtain j where j: "?r / ?u = of_int j" by blast
    have "?r / ?u \<le> x / ?u" using rx upos by (simp add: divide_right_mono)
    then have "of_int j \<le> x / ?u" by (simp only: j)
    then have "j \<le> round_half_even (x / ?u)" by (rule round_half_even_ge)
    then have "(of_int j :: real) \<le> of_int (round_half_even (x / ?u))" by (simp only: of_int_le_iff)
    then have "of_int j * ?u \<le> of_int (round_half_even (x / ?u)) * ?u"
      using upos by (simp only: mult_le_cancel_right_pos)
    moreover have "of_int j * ?u = ?r" using j upos by (simp add: field_simps)
    ultimately show ?thesis by (simp only: b)
  next
    case False
    have "(of_int (2 ^ 52) :: real) \<le> x / ?u"
      using lo upos by (simp add: pw pos_le_divide_eq)
    then have "2 ^ 52 \<le> round_half_even (x / ?u)" by (rule round_half_even_ge)
    then have "(of_int (2 ^ 52) :: real) \<le> of_int (round_half_even (x / ?u))"
      by (simp only: of_int_le_iff)
    then have "of_int (2 ^ 52) * ?u \<le> of_int (round_half_even (x / ?u)) * ?u"
      using upos by (simp only: mult_le_cancel_right_pos)
    then have "2 powr of_int ?E \<le> binary64 x" by (simp add: b pw)
    with False show ?thesis by linarith
  qed
  have upper: "binary64 x \<le> ?r" if xr: "x \<le> ?r"
  proof -
    have "2 powr of_int ?E \<le> ?r" using lo xr by linarith
    from multiple_of_ulp [OF m this] obtain j where j: "?r / ?u = of_int j" by blast
    have "x / ?u \<le> ?r / ?u" using xr upos by (simp add: divide_right_mono)
    then have "x / ?u \<le> of_int j" by (simp only: j)
    then have "round_half_even (x / ?u) \<le> j" by (rule round_half_even_le)
    then have "(of_int (round_half_even (x / ?u)) :: real) \<le> of_int j" by (simp only: of_int_le_iff)
    then have "of_int (round_half_even (x / ?u)) * ?u \<le> of_int j * ?u"
      using upos by (simp only: mult_le_cancel_right_pos)
    moreover have "of_int j * ?u = ?r" using j upos by (simp add: field_simps)
    ultimately show ?thesis by (simp only: b)
  qed
  from lower upper show ?thesis by blast
qed

lemma binary64_int_bounds:
  assumes "0 < x" "0 < k" "k < 2 ^ 53"
  shows "(of_int k \<le> x \<longrightarrow> of_int k \<le> binary64 x) \<and> (x \<le> of_int k \<longrightarrow> binary64 x \<le> of_int k)"
  using binary64_bounds [OF assms, of 0] by simp

lemma ceiling_binary64_quotient:
  assumes a: "1 \<le> a" "a \<le> 2 ^ 26" and b: "1 \<le> b" "b \<le> 2 ^ 26"
  shows "\<lceil>binary64 (of_int a / of_int b)\<rceil> = \<lceil>(of_int a / of_int b :: real)\<rceil>"
    and "1 \<le> \<lceil>(of_int a / of_int b :: real)\<rceil>"
    and "\<lceil>(of_int a / of_int b :: real)\<rceil> \<le> a"
proof -
  let ?x = "of_int a / of_int b :: real"
  let ?K = "\<lceil>?x\<rceil>"
  have bpos: "0 < (of_int b :: real)" using b(1) by simp
  have xpos: "0 < ?x" using a(1) b(1) by simp
  then show K1: "1 \<le> ?K" by (simp add: less_ceiling_iff [symmetric] del: less_ceiling_iff)
  have "?x \<le> of_int a"
  proof -
    have "(1 :: real) \<le> of_int b" using b(1) by simp
    moreover have "0 \<le> (of_int a :: real)" using a(1) by simp
    ultimately have "of_int a / of_int b \<le> of_int a / (1 :: real)"
      by (intro divide_left_mono) simp_all
    then show ?thesis by simp
  qed
  then show Ka: "?K \<le> a" by (simp add: ceiling_le_iff)
  have "(2 :: int) ^ 26 < 2 ^ 53" by simp
  with Ka a(2) have K53: "?K < 2 ^ 53" by linarith
  have up: "binary64 ?x \<le> of_int ?K"
    using binary64_int_bounds [OF xpos, of ?K] K1 K53 by (simp add: le_of_int_ceiling)
  let ?m = "(?K - 1) * 2 ^ 26 + 1"
  have m0: "0 < ?m" using K1 by (intro add_nonneg_pos mult_nonneg_nonneg) simp_all
  have "?K - 1 \<le> 2 ^ 26 - 1" using Ka a(2) by linarith
  then have "(?K - 1) * 2 ^ 26 \<le> (2 ^ 26 - 1) * (2 ^ 26 :: int)"
    by (rule mult_right_mono) simp
  also have "\<dots> < 2 ^ 53 - 1" by simp
  finally have m53: "?m < 2 ^ 53" by linarith
  have r: "of_int ?m * 2 powr of_int (- 26) = (of_int (?K - 1) + 1 / 2 ^ 26 :: real)"
    by (simp add: powr_minus powr_realpow [symmetric] field_simps del: powr_numeral)
  have "of_int (?K - 1) < ?x" using ceiling_correct [of ?x] by simp
  then have "of_int (?K - 1) * of_int b < (of_int a :: real)"
    using bpos by (simp add: pos_less_divide_eq)
  then have "(of_int ((?K - 1) * b) :: real) < of_int a" by simp
  then have "(?K - 1) * b < a" by (simp only: of_int_less_iff)
  then have "(?K - 1) * b + 1 \<le> a" by simp
  then have "(of_int ((?K - 1) * b + 1) :: real) \<le> of_int a" by (simp only: of_int_le_iff)
  then have "of_int (?K - 1) * of_int b + 1 \<le> (of_int a :: real)" by simp
  then have "(of_int (?K - 1) * of_int b + 1) / of_int b \<le> ?x"
    using bpos by (simp add: divide_right_mono)
  then have "of_int (?K - 1) + 1 / of_int b \<le> ?x"
    using bpos by (simp add: add_divide_distrib)
  moreover have "1 / 2 ^ 26 \<le> 1 / (of_int b :: real)"
  proof -
    have "(of_int b :: real) \<le> of_int (2 ^ 26)" using b(2) by (simp only: of_int_le_iff)
    then show ?thesis using bpos by (simp add: frac_le)
  qed
  ultimately have "of_int ?m * 2 powr of_int (- 26) \<le> ?x" unfolding r by linarith
  with binary64_bounds [OF xpos m0 m53, of "- 26"]
  have "of_int ?m * 2 powr of_int (- 26) \<le> binary64 ?x" by blast
  moreover have "(0 :: real) < 1 / 2 ^ 26" by simp
  ultimately have "of_int (?K - 1) < binary64 ?x" unfolding r by linarith
  then have "?K - 1 < \<lceil>binary64 ?x\<rceil>" by (simp add: less_ceiling_iff)
  moreover have "\<lceil>binary64 ?x\<rceil> \<le> ?K" using up by (simp add: ceiling_le_iff)
  ultimately show "\<lceil>binary64 ?x\<rceil> = ?K" by linarith
qed

lemma ceiling_times_ge:
  assumes "0 < b"
  shows "a \<le> \<lceil>(of_int a / of_int b :: real)\<rceil> * b"
proof -
  have "(of_int a / of_int b :: real) \<le> of_int \<lceil>(of_int a / of_int b :: real)\<rceil>"
    by (rule le_of_int_ceiling)
  moreover have "0 < (of_int b :: real)" using assms by simp
  ultimately have "(of_int a :: real) \<le> of_int \<lceil>(of_int a / of_int b :: real)\<rceil> * of_int b"
    by (simp only: pos_divide_le_eq)
  then have "(of_int a :: real) \<le> of_int (\<lceil>(of_int a / of_int b :: real)\<rceil> * b)" by simp
  then show ?thesis by (simp only: of_int_le_iff)
qed

text \<open>
  For counts up to \<open>2^26\<close> the rounding does no harm: the plan has at least one instance
  and one category and provides at least \<open>count\<close> rows. The failure shown above needs a
  quotient large enough for its fractional part to be lost in the rounding.
\<close>

lemma planner_overprovisions_bounded:
  assumes "0 < count self" and "count self \<le> 2 ^ 26" and "weights self \<noteq> []"
  shows "\<exists>self1. initialize_params self = Inr self1
           \<and> count self1 = count self
           \<and> 1 \<le> instances self1 \<and> 1 \<le> categories self1
           \<and> count self \<le> categories self1 * instances self1 * int (length (weights self1))"
proof -
  let ?N = "count self"
  define ws1 where "ws1 = (if ?N < int (length (weights self))
                            then slice_to (weights self) ?N else weights self)"
  define W where "W = int (length ws1)"
  have W: "1 \<le> W" "W \<le> ?N"
    using assms(1,3) by (auto simp: W_def ws1_def slice_to_def Suc_le_eq)
  have W26: "W \<le> 2 ^ 26" using W(2) assms(2) by linarith
  have N1: "1 \<le> ?N" using assms(1) by simp
  let ?x = "of_int ?N / of_int W :: real"
  define K where "K = \<lceil>?x\<rceil>"
  have q: "\<lceil>binary64 ?x\<rceil> = K" and K: "1 \<le> K" "K \<le> ?N"
    using ceiling_binary64_quotient [OF N1 assms(2) W(1) W26] by (simp_all add: K_def)
  have K26: "K \<le> 2 ^ 26" using K(2) assms(2) by linarith
  have "(2 :: int) ^ 26 < 2 ^ 53" by simp
  with K26 assms(2) have K53: "K < 2 ^ 53" and N53: "?N < 2 ^ 53" by linarith+
  have xpos: "0 < ?x" using N1 W(1) by simp
  have x1: "1 \<le> ?x" using W by (simp add: pos_le_divide_eq)
  have xN: "?x \<le> of_int ?N"
  proof -
    have "(1 :: real) \<le> of_int W" using W(1) by simp
    moreover have "0 \<le> (of_int ?N :: real)" using N1 by simp
    ultimately have "of_int ?N / of_int W \<le> of_int ?N / (1 :: real)"
      by (intro divide_left_mono) simp_all
    then show ?thesis by simp
  qed
  have q1: "1 \<le> binary64 ?x"
    using binary64_int_bounds [OF xpos, of 1] x1 by simp
  have qN: "binary64 ?x \<le> of_int ?N"
    using binary64_int_bounds [OF xpos assms(1) N53] xN by blast
  have "(of_int ?N :: real) \<le> of_int (2 ^ 26)" using assms(2) by (simp only: of_int_le_iff)
  with qN have "binary64 ?x \<le> 2 ^ 26" by simp
  moreover have "(2 :: real) ^ 26 < 2 ^ 1024" by simp
  ultimately have small: "\<not> 2 ^ 1024 \<le> \<bar>binary64 ?x\<bar>" using q1 by linarith
  have td: "true_divide ?N W = Inr (binary64 ?x)"
    using W(1) small by (simp add: true_divide_def Let_def)
  have ic: "np_ceil (binary64 ?x) = of_int K" by (simp add: np_ceil_def q)
  have Kpos: "0 < (of_int K :: real)" using K(1) by simp
  have sq1: "1 \<le> sqrt (of_int K)" using K(1) by simp
  have sqK: "sqrt (of_int K) \<le> of_int K"
  proof -
    have "(1 :: real) \<le> of_int K" using K(1) by simp
    then have "sqrt (of_int K) * 1 \<le> sqrt (of_int K) * sqrt (of_int K)"
      using sq1 by (intro mult_left_mono) simp_all
    then show ?thesis using Kpos by simp
  qed
  have spos: "0 < sqrt (of_int K)" using sq1 by linarith
  define I where "I = \<lceil>binary64 (sqrt (of_int K))\<rceil>"
  have s1: "1 \<le> binary64 (sqrt (of_int K))"
    using binary64_int_bounds [OF spos, of 1] sq1 by simp
  have sK: "binary64 (sqrt (of_int K)) \<le> of_int K"
    using binary64_int_bounds [OF spos _ K53] K(1) sqK by simp
  have I: "1 \<le> I" "I \<le> K"
    using s1 sK by (simp_all add: I_def ceiling_le_iff)
  have I26: "I \<le> 2 ^ 26" using I(2) K26 by linarith
  have "(2 :: int) ^ 26 < 2 ^ 63" by simp
  with I26 I(1) have I63: "- (2 ^ 63) \<le> I" "I < 2 ^ 63" by linarith+
  have inst: "astype_int (np_ceil (np_sqrt (of_int K))) = I"
    using astype_int_of_int [OF I63] by (simp add: np_ceil_def np_sqrt_def I_def)
  have "\<bar>I\<bar> < 2 ^ 53" using I(1) I26 \<open>(2 :: int) ^ 26 < 2 ^ 53\<close> by linarith
  then have bI: "binary64 (of_int I) = of_int I" by (rule binary64_of_int)
  define C where "C = \<lceil>(of_int K / of_int I :: real)\<rceil>"
  have c: "\<lceil>binary64 (of_int K / of_int I)\<rceil> = C" and C: "1 \<le> C" "C \<le> K"
    using ceiling_binary64_quotient [OF K(1) K26 I(1) I26] by (simp_all add: C_def)
  have "(2 :: int) ^ 26 < 2 ^ 63" by simp
  with C K26 have C63: "- (2 ^ 63) \<le> C" "C < 2 ^ 63" by linarith+
  have cat: "astype_int (np_ceil (np_divide (of_int K) I)) = C"
    using astype_int_of_int [OF C63] by (simp add: np_ceil_def np_divide_def bI c)
  have res: "initialize_params self
               = Inr (self\<lparr>weights := ws1, instances := I, categories := C\<rparr>)"
    using I(1)
    by (simp add: initialize_params_def ws1_def [symmetric] W_def [symmetric] td ic inst cat
        Let_def)
  have "K \<le> C * I" using ceiling_times_ge [of I K] I(1) by (simp add: C_def)
  then have "K * W \<le> C * I * W" using W(1) by (intro mult_right_mono) simp_all
  moreover have "?N \<le> K * W" using ceiling_times_ge [of W ?N] W(1) by (simp add: K_def)
  ultimately have "?N \<le> C * I * W" by linarith
  with res I(1) C(1) show ?thesis by (simp add: W_def)
qed

section \<open>Partitioning after construction\<close>

lemma initialize_params_keeps:
  "initialize_params self = Inr self1 \<Longrightarrow>
   count self1 = count self \<and> cpu_count self1 = cpu_count self"
  by (auto simp: initialize_params_def Let_def split: sum.splits)

text \<open>
  From the constructor to the batches, for counts up to \<open>2^26\<close>: whatever object
  \<open>__init__\<close> returns, the partitioning step succeeds on it, makes \<open>min(cpus, N)\<close> batches
  of the balanced sizes and assigns the indices \<open>0, \<dots>, N - 1\<close> by position.
\<close>

lemma partition_after_init:
  assumes "init p out n shape mp e = (Inr self, e1)" and "n \<le> 2 ^ 26"
    and "os_cpu_count e = Some c" and "0 < c"
    and "int (length params) = categories self"
  shows "\<exists>batches. partition_jobs self (params :: 'p list) = Inr batches
           \<and> length batches = nat (min c n)
           \<and> map (\<lambda>b. length (batch_jobs b)) batches
               = section_sizes (nat n) (nat (min c n))
           \<and> all_jobs batches
               = zip [0..<nat n] (zip (truncated_params self params) (truncated_weights self))"
proof -
  from assms(1) have n: "0 < n"
    by (auto simp: init_def split: if_splits)
  let ?self0 = "\<lparr> count = n, output_dir = out,
      model_dir = (case mp of None \<Rightarrow> cwd e | Some d \<Rightarrow> if d = [] then cwd e else d),
      cpu_count = min c n, height = shape ! 0, width = shape ! 1,
      weights = create_weights p, threshold = 2 / 10, iterations = 200000,
      num_of_points = 100000, instances = 0, categories = 0 \<rparr>"
  from assms(1,3) n have ip: "initialize_params ?self0 = Inr self"
    by (auto simp: init_def Let_def split: if_splits prod.splits sum.splits)
  have w: "weights ?self0 \<noteq> []" by (simp add: create_weights_def Let_def)
  from planner_overprovisions_bounded [of ?self0] n assms(2) w ip
  have plan: "1 \<le> instances self" "1 \<le> categories self"
    "n \<le> categories self * instances self * int (length (weights self))"
    by auto
  from initialize_params_keeps [OF ip]
  have keep: "count self = n" "cpu_count self = min c n" by simp_all
  have "\<exists>batches. partition_jobs self params = Inr batches
           \<and> length batches = nat (min (cpu_count self) (count self))
           \<and> map (\<lambda>b. length (batch_jobs b)) batches
               = section_sizes (nat (count self)) (nat (min (cpu_count self) (count self)))
           \<and> all_jobs batches
               = zip [0..<nat (count self)]
                   (zip (truncated_params self params) (truncated_weights self))"
    using n assms(4,5) plan keep by (intro partition_jobs_all_jobs) simp_all
  then show ?thesis by (simp add: keep)
qed






end
